theory Spec2Isabelle
  imports Main "HOL-Library.Sublist"
begin

section \<open>Strings and list-name markers\<close>

text \<open>
  Python strings are modelled as \<open>string\<close>. \<open>str.lower\<close> is modelled on the ASCII
  letters; every other character is left as it is. \<open>a in b\<close> on two strings is the
  contiguous-substring test \<open>sublist a b\<close>.
\<close>

definition lower_char :: "char \<Rightarrow> char" where
  "lower_char c =
     (case map_of (zip ''ABCDEFGHIJKLMNOPQRSTUVWXYZ'' ''abcdefghijklmnopqrstuvwxyz'') c of
        None \<Rightarrow> c
      | Some l \<Rightarrow> l)"

definition lower :: "string \<Rightarrow> string" where
  "lower s = map lower_char s"

text \<open>
  \<open>any(name.lower() in list_name.lower() for name in names)\<close>, the test used with
  \<open>config.done_list_names\<close> and \<open>config.in_progress_list_names\<close>.
\<close>

definition any_marker :: "string list \<Rightarrow> string \<Rightarrow> bool" where
  "any_marker names list_name =
     list_ex (\<lambda>n. sublist (lower n) (lower list_name)) names"

text \<open>Truthiness of an optional string: \<open>None\<close> and the empty string are falsy.\<close>

definition truthy :: "string option \<Rightarrow> bool" where
  "truthy v = (case v of None \<Rightarrow> False | Some s \<Rightarrow> s \<noteq> [])"

section \<open>Configuration and board snapshots\<close>

record config =
  board_ids :: "string list"
  done_list_names :: "string list"
  in_progress_list_names :: "string list"
  trello_to_telegram_users :: "(string \<times> string) list"
  REPORT_CHAT_ID :: string

record member =
  member_id :: string
  username :: "string option"

text \<open>
  A card as the board API returns it. The keys read with \<open>card["..."]\<close> are plain
  fields; the keys read with \<open>card.get("...")\<close> are optional.
\<close>

record card =
  card_id :: string
  card_name :: string
  shortUrl :: string
  idList :: string
  card_members :: "member list option"
  due :: "string option"
  start :: "string option"
  dateLastActivity :: "string option"

text \<open>\<open>card.get("members", [])\<close>\<close>

definition get_members :: "card \<Rightarrow> member list" where
  "get_members c = (case card_members c of None \<Rightarrow> [] | Some ms \<Rightarrow> ms)"

text \<open>
  \<open>{lst["id"]: lst["name"] for lst in lists}\<close>: the lists of a board are pairs
  (id, name); a later pair with the same id overwrites an earlier one.
\<close>

definition list_names_of :: "(string \<times> string) list \<Rightarrow> (string \<rightharpoonup> string)" where
  "list_names_of ls = map_of (rev ls)"

text \<open>\<open>list_names.get(card["idList"], "")\<close>\<close>

definition list_name_of :: "(string \<rightharpoonup> string) \<Rightarrow> card \<Rightarrow> string" where
  "list_name_of list_names c =
     (case list_names (idList c) of None \<Rightarrow> [] | Some n \<Rightarrow> n)"

text \<open>\<open>"%s_%s" % (board_id, card["id"])\<close>\<close>

definition card_key :: "string \<Rightarrow> card \<Rightarrow> string" where
  "card_key board_id c = board_id @ ''_'' @ card_id c"

section \<open>Change detector: \<open>check_for_completed_cards\<close>\<close>

text \<open>
  One entry of \<open>last_known_states\<close>. Every entry the code writes has the three keys.
\<close>

record card_state =
  completed :: bool
  list_id :: string
  members :: "string list"

type_synonym states = "string \<rightharpoonup> card_state"

text \<open>
  A notification is one call of \<open>send_message(config.REPORT_CHAT_ID, message)\<close>.
  \<open>send_message\<close> catches every exception of the delivery and returns \<open>None\<close> after its
  retries, so the call never raises into the detector. The event records what the text
  is rendered from: the board name, the card (for \<open>format_card_link\<close>) and, for
  assignments, the members whose tags are listed.
\<close>

datatype event =
    CardCompleted string card
  | MembersAssigned string card "member list"

text \<open>The tag of one member in the assignment message.\<close>

definition telegram_tag :: "config \<Rightarrow> member \<Rightarrow> string" where
  "telegram_tag cfg m =
     (let u = (case username m of None \<Rightarrow> [] | Some n \<Rightarrow> n)
      in case map_of (rev (trello_to_telegram_users cfg)) u of
           None \<Rightarrow> ''@'' @ u
         | Some t \<Rightarrow> t)"

definition notify_member_assignments ::
    "card \<Rightarrow> string \<Rightarrow> string set \<Rightarrow> event list" where
  "notify_member_assignments c board_name new_member_ids =
     (let new_members = filter (\<lambda>m. member_id m \<in> new_member_ids) (get_members c)
      in if new_members = [] then [] else [MembersAssigned board_name c new_members])"

text \<open>
  The body of the loop over the cards of one board. Python's \<open>set\<close> of member ids is a
  HOL set; \<open>list(current_members)\<close> enumerates that set in an order Python does not fix,
  modelled by \<open>remdups\<close> of the ids in card order. The stored list is only ever read back
  through \<open>set(...)\<close>.
\<close>

definition process_card ::
    "config \<Rightarrow> string \<Rightarrow> string \<Rightarrow> (string \<rightharpoonup> string) \<Rightarrow> card \<Rightarrow> states
      \<Rightarrow> event list \<times> states" where
  "process_card cfg board_id board_name list_names c lks =
     (let list_name = list_name_of list_names c;
          is_completed = any_marker (done_list_names cfg) list_name;
          k = card_key board_id c
      in if is_completed then
           (case lks k of
              None \<Rightarrow>
                ([], lks(k \<mapsto> \<lparr>completed = is_completed, list_id = idList c,
                                 members = map member_id (get_members c)\<rparr>))
            | Some s \<Rightarrow>
                if \<not> completed s
                then ([CardCompleted board_name c],
                      lks(k \<mapsto> s\<lparr>completed := True, list_id := idList c\<rparr>))
                else ([], lks))
         else
           (let current_members = set (map member_id (get_members c));
                evs = (case lks k of
                         None \<Rightarrow> []
                       | Some s \<Rightarrow>
                           (let new_members = current_members - set (members s)
                            in if new_members \<noteq> {}
                               then notify_member_assignments c board_name new_members
                               else []))
            in (evs, lks(k \<mapsto> \<lparr>completed = False, list_id = idList c,
                                 members = remdups (map member_id (get_members c))\<rparr>))))"

fun process_cards ::
    "config \<Rightarrow> string \<Rightarrow> string \<Rightarrow> (string \<rightharpoonup> string) \<Rightarrow> card list \<Rightarrow> states
      \<Rightarrow> event list \<times> states" where
  "process_cards cfg board_id board_name list_names [] lks = ([], lks)"
| "process_cards cfg board_id board_name list_names (c # cs) lks =
     (let (evs1, lks1) = process_card cfg board_id board_name list_names c lks;
          (evs2, lks2) = process_cards cfg board_id board_name list_names cs lks1
      in (evs1 @ evs2, lks2))"

text \<open>
  What the three requests for one board return. \<open>None\<close> stands for a request that
  raised: the \<open>except\<close> clause logs it and the loop goes on with the next board, before
  any card of this board was looked at.
\<close>

record board_data =
  board_name :: string
  board_cards :: "card list"
  board_lists :: "(string \<times> string) list"

definition check_board ::
    "config \<Rightarrow> string \<Rightarrow> board_data option \<Rightarrow> states \<Rightarrow> event list \<times> states" where
  "check_board cfg board_id fetched lks =
     (case fetched of
        None \<Rightarrow> ([], lks)
      | Some b \<Rightarrow>
          process_cards cfg board_id (board_name b) (list_names_of (board_lists b))
            (board_cards b) lks)"

fun check_boards ::
    "config \<Rightarrow> (string \<Rightarrow> board_data option) \<Rightarrow> string list \<Rightarrow> states
      \<Rightarrow> event list \<times> states" where
  "check_boards cfg api [] lks = ([], lks)"
| "check_boards cfg api (b # bs) lks =
     (let (evs1, lks1) = check_board cfg b (api b) lks;
          (evs2, lks2) = check_boards cfg api bs lks1
      in (evs1 @ evs2, lks2))"

definition check_for_completed_cards ::
    "config \<Rightarrow> (string \<Rightarrow> board_data option) \<Rightarrow> states \<Rightarrow> event list \<times> states" where
  "check_for_completed_cards cfg api lks = check_boards cfg api (board_ids cfg) lks"

text \<open>
  \<open>_is_card_done(card, list_names)\<close> of the report generator: the same test the detector
  computes inline as \<open>is_completed\<close>.
\<close>

definition is_card_done :: "config \<Rightarrow> (string \<rightharpoonup> string) \<Rightarrow> card \<Rightarrow> bool" where
  "is_card_done cfg list_names c = any_marker (done_list_names cfg) (list_name_of list_names c)"

subsection \<open>Observing the events of one card\<close>

fun is_completion :: "event \<Rightarrow> bool" where
  "is_completion (CardCompleted bn c) = True"
| "is_completion (MembersAssigned bn c ms) = False"

fun event_card :: "event \<Rightarrow> card" where
  "event_card (CardCompleted bn c) = c"
| "event_card (MembersAssigned bn c ms) = c"

definition events_of :: "string \<Rightarrow> event list \<Rightarrow> event list" where
  "events_of i evs = filter (\<lambda>e. card_id (event_card e) = i) evs"

text \<open>
  Consecutive polls of one board by the main loop, which calls the detector, sleeps and
  calls it again: the events of each poll, and the state after the last one.
\<close>

fun check_board_polls ::
    "config \<Rightarrow> string \<Rightarrow> board_data option list \<Rightarrow> states
      \<Rightarrow> event list list \<times> states" where
  "check_board_polls cfg board_id [] lks = ([], lks)"
| "check_board_polls cfg board_id (p # ps) lks =
     (let (evs, lks1) = check_board cfg board_id p lks;
          (rest, lks2) = check_board_polls cfg board_id ps lks1
      in (evs # rest, lks2))"

text \<open>
  In the poll \<open>p\<close>, every card with id \<open>i\<close> that the board returns sits in a done
  list (a poll whose requests raised returns no card).
\<close>

definition stays_done :: "config \<Rightarrow> string \<Rightarrow> board_data option \<Rightarrow> bool" where
  "stays_done cfg i p =
     (case p of
        None \<Rightarrow> True
      | Some b \<Rightarrow> list_all (\<lambda>c. card_id c \<noteq> i \<or> is_card_done cfg (list_names_of (board_lists b)) c)
                    (board_cards b))"

text \<open>
  No card with id \<open>i\<close> is among the cards a poll returns for a board.
\<close>

definition absent_from :: "string \<Rightarrow> board_data option \<Rightarrow> bool" where
  "absent_from i p = (case p of None \<Rightarrow> True | Some bd \<Rightarrow> i \<notin> card_id ` set (board_cards bd))"

section \<open>Pinned-message store\<close>

text \<open>One record of the \<open>"messages"\<close> list of \<open>bot_pinned_messages.json\<close>.\<close>

record pinned_message =
  chat_id :: string
  message_id :: int
  pinned_at :: string
  message_url :: string

text \<open>A message of the old file format, where the chat id was the key of the list.\<close>

record old_message =
  old_message_id :: int
  old_pinned_at :: "string option"
  old_message_url :: "string option"

text \<open>
  The file on disk. \<open>NoFile\<close> is a file that does not exist or cannot be read or
  decoded, for which \<open>load_json_file\<close> returns its default. \<open>Messages\<close> is the current
  format, an object with the single key \<open>"messages"\<close>. \<open>OldFormat\<close> is the old format, an
  object from chat ids to message lists, without the key \<open>"messages"\<close>. Writing the file
  is taken to succeed (\<open>save_json_file\<close> logs a failed write and goes on).
\<close>

datatype pinned_file =
    NoFile
  | Messages "pinned_message list"
  | OldFormat "(string \<times> old_message list) list"

definition convert_old :: "string \<Rightarrow> old_message \<Rightarrow> pinned_message" where
  "convert_old c m =
     \<lparr>chat_id = c, message_id = old_message_id m,
      pinned_at = (case old_pinned_at m of None \<Rightarrow> ''unknown'' | Some p \<Rightarrow> p),
      message_url = (case old_message_url m of None \<Rightarrow> [] | Some u \<Rightarrow> u)\<rparr>"

text \<open>
  \<open>load_pinned_messages\<close>: the list under \<open>"messages"\<close> of the loaded data, and the file
  afterwards (an old-format file with a key starting with \<open>-\<close> is rewritten).
\<close>

definition load_pinned_messages :: "pinned_file \<Rightarrow> pinned_message list \<times> pinned_file" where
  "load_pinned_messages f =
     (case f of
        NoFile \<Rightarrow> ([], NoFile)
      | Messages ms \<Rightarrow> (ms, Messages ms)
      | OldFormat kvs \<Rightarrow>
          if list_ex (\<lambda>(k, v). prefix ''-'' k) kvs
          then (let new_data = concat (map (\<lambda>(c, msgs). map (convert_old c) msgs) kvs)
                in (new_data, Messages new_data))
          else ([], OldFormat kvs))"

text \<open>\<open>add_pinned_message\<close>; \<open>now\<close> is \<open>datetime.now().isoformat()\<close>.\<close>

definition add_pinned_message ::
    "string \<Rightarrow> pinned_file \<Rightarrow> string \<Rightarrow> int \<Rightarrow> string \<Rightarrow> pinned_file" where
  "add_pinned_message now f c m url =
     (let (data, f1) = load_pinned_messages f;
          existing = filter (\<lambda>msg. chat_id msg = c \<and> message_id msg = m) data
      in if existing \<noteq> [] then f1
         else Messages (data @ [\<lparr>chat_id = c, message_id = m, pinned_at = now,
                                  message_url = url\<rparr>]))"

definition get_stored_pinned_messages ::
    "pinned_file \<Rightarrow> string \<Rightarrow> pinned_message list \<times> pinned_file" where
  "get_stored_pinned_messages f c =
     (let (data, f1) = load_pinned_messages f
      in (filter (\<lambda>msg. chat_id msg = c) data, f1))"

definition remove_pinned_message :: "pinned_file \<Rightarrow> string \<Rightarrow> int \<Rightarrow> pinned_file" where
  "remove_pinned_message f c m =
     (let (data, f1) = load_pinned_messages f
      in Messages (filter (\<lambda>msg. \<not> (chat_id msg = c \<and> message_id msg = m)) data))"

section \<open>Pin rotation: \<open>_send_report_with_pin\<close>\<close>

text \<open>\<open>"%d" % n\<close>\<close>

function show_nat :: "nat \<Rightarrow> string" where
  "show_nat n =
     (if n < 10 then [''0123456789'' ! n]
      else show_nat (n div 10) @ [''0123456789'' ! (n mod 10)])"
  by pat_completeness auto
termination
  by (relation "measure id") auto

declare show_nat.simps [simp del]

definition show_int :: "int \<Rightarrow> string" where
  "show_int i = (if i < 0 then ''-'' @ show_nat (nat (- i)) else show_nat (nat i))"

text \<open>
  What the chat channel answers during one publication: whether the \<open>n\<close>-th unpin call
  succeeds, the id of the sent message (\<open>None\<close> when \<open>send_message\<close> gives up), whether
  the pin call succeeds, and the clock reading stored as \<open>pinned_at\<close>.
\<close>

record outcomes =
  unpin_ok :: "nat \<Rightarrow> bool"
  send_result :: "int option"
  pin_ok :: bool
  pin_time :: string

text \<open>The loop over \<open>stored_pinned\<close>: a record is removed only after a successful unpin.\<close>

fun unpin_old ::
    "(nat \<Rightarrow> bool) \<Rightarrow> string \<Rightarrow> nat \<Rightarrow> pinned_message list \<Rightarrow> pinned_file \<Rightarrow> pinned_file" where
  "unpin_old ok c n [] f = f"
| "unpin_old ok c n (msg_data # rest) f =
     unpin_old ok c (Suc n) rest
       (if ok n then remove_pinned_message f c (message_id msg_data) else f)"

text \<open>
  \<open>_send_report_with_pin\<close>: the result of the send and the file afterwards. The text that
  is sent (the report and the link from \<open>get_last_report_url\<close>) does not reach the file
  and is left out; the load that \<open>get_last_report_url\<close> performs is kept.
\<close>

definition send_report_with_pin ::
    "outcomes \<Rightarrow> string \<Rightarrow> pinned_file \<Rightarrow> int option \<times> pinned_file" where
  "send_report_with_pin out c f =
     (let f1 = snd (load_pinned_messages f);
          (stored_pinned, f2) = get_stored_pinned_messages f1 c;
          f3 = unpin_old (unpin_ok out) c 0 stored_pinned f2
      in case send_result out of
           None \<Rightarrow> (None, f3)
         | Some mid \<Rightarrow>
             (let url_chat_id = (if prefix ''-100'' c then drop 4 c else c);
                  url = ''https://t.me/c/'' @ url_chat_id @ ''/'' @ show_int mid
              in if pin_ok out
                 then (Some mid, add_pinned_message (pin_time out) f3 c mid url)
                 else (Some mid, f3)))"

text \<open>A sequence of publications for one chat.\<close>

fun publish_all :: "outcomes list \<Rightarrow> string \<Rightarrow> pinned_file \<Rightarrow> pinned_file" where
  "publish_all [] c f = f"
| "publish_all (out # outs) c f = publish_all outs c (snd (send_report_with_pin out c f))"

text \<open>The records of a chat that the store holds.\<close>

definition records_for :: "pinned_file \<Rightarrow> string \<Rightarrow> pinned_message list" where
  "records_for f c = fst (get_stored_pinned_messages f c)"

section \<open>Dates\<close>

text \<open>
  A naive \<open>datetime\<close> is its wall-clock reading in microseconds; an aware one carries its
  UTC offset as well. \<open>datetime.fromisoformat\<close> belongs to the Python library and is a
  parameter \<open>fromiso\<close> of the functions below: \<open>None\<close> is its \<open>ValueError\<close>, \<open>Some (w, off)\<close> a
  wall-clock reading \<open>w\<close> with the offset \<open>off\<close> the string gave, if any.
\<close>

type_synonym isoparser = "string \<Rightarrow> (int \<times> int option) option"

datatype py_error = ValueError

definition hour :: int where
  "hour = 3600000000"

definition day :: int where
  "day = 24 * hour"

text \<open>\<open>s.replace("Z", "+00:00")\<close>\<close>

definition replace_Z :: "string \<Rightarrow> string" where
  "replace_Z s = concat (map (\<lambda>c. if c = CHR ''Z'' then ''+00:00'' else [c]) s)"

definition parse_date :: "isoparser \<Rightarrow> string \<Rightarrow> (int \<times> int option) option" where
  "parse_date fromiso s = fromiso (replace_Z s)"

text \<open>
  The clock at the moment of a report: the UTC reading and the offset of the local zone.
  \<open>datetime.now()\<close> is the naive local reading.
\<close>

record clock =
  now_utc :: int
  local_offset :: int

definition now_local :: "clock \<Rightarrow> int" where
  "now_local clk = now_utc clk + local_offset clk"

text \<open>\<open>timedelta.days\<close> of a difference of two readings.\<close>

definition days :: "int \<Rightarrow> int" where
  "days delta = delta div day"

section \<open>Classification\<close>

text \<open>
  \<open>is_card_overdue\<close>. \<open>datetime.now(due_date.tzinfo) > due_date\<close> compares instants when
  the due date is aware and local wall-clock readings when it is naive. The parse is not
  guarded.
\<close>

definition is_card_overdue :: "isoparser \<Rightarrow> clock \<Rightarrow> card \<Rightarrow> py_error + bool" where
  "is_card_overdue fromiso clk c =
     (case due c of
        None \<Rightarrow> Inr False
      | Some d \<Rightarrow>
          if d = [] then Inr False
          else (case parse_date fromiso d of
                  None \<Rightarrow> Inl ValueError
                | Some (w, off) \<Rightarrow>
                    (case off of
                       None \<Rightarrow> Inr (now_local clk > w)
                     | Some off' \<Rightarrow> Inr (now_utc clk > w - off'))))"

text \<open>
  The body of the loop of \<open>get_current_cards\<close>: whether the card is appended to
  \<open>current_cards\<close>. The lists of the board, which the code requests again for every card
  without dates, are given as \<open>list_names\<close>.
\<close>

definition card_is_current ::
    "isoparser \<Rightarrow> config \<Rightarrow> clock \<Rightarrow> (string \<rightharpoonup> string) \<Rightarrow> card \<Rightarrow> py_error + bool" where
  "card_is_current fromiso cfg clk list_names c =
     (case is_card_overdue fromiso clk c of
        Inl e \<Rightarrow> Inl e
      | Inr True \<Rightarrow> Inr False
      | Inr False \<Rightarrow>
          (case (if truthy (start c) then start c else None) of
             Some start_date \<Rightarrow>
               (case parse_date fromiso start_date of
                  None \<Rightarrow> Inl ValueError
                | Some (start_dt, _) \<Rightarrow>
                    if start_dt \<le> now_local clk then
                      (case (if truthy (due c) then due c else None) of
                         Some due_date \<Rightarrow>
                           (case parse_date fromiso due_date of
                              None \<Rightarrow> Inl ValueError
                            | Some (due_dt, _) \<Rightarrow> Inr (due_dt > now_local clk))
                       | None \<Rightarrow> Inr True)
                    else Inr False)
           | None \<Rightarrow>
               if \<not> truthy (due c)
               then Inr (any_marker (in_progress_list_names cfg) (list_name_of list_names c))
               else Inr False))"

fun get_current_cards ::
    "isoparser \<Rightarrow> config \<Rightarrow> clock \<Rightarrow> (string \<rightharpoonup> string) \<Rightarrow> card list
      \<Rightarrow> py_error + card list" where
  "get_current_cards fromiso cfg clk list_names [] = Inr []"
| "get_current_cards fromiso cfg clk list_names (c # cs) =
     (case card_is_current fromiso cfg clk list_names c of
        Inl e \<Rightarrow> Inl e
      | Inr is_current \<Rightarrow>
          (case get_current_cards fromiso cfg clk list_names cs of
             Inl e \<Rightarrow> Inl e
           | Inr current_cards \<Rightarrow> Inr (if is_current then c # current_cards else current_cards)))"

text \<open>
  \<open>get_user_tasks\<close>, the categorisation of one card of the user: skipped as done, listed
  as overdue, listed as current, or not listed.
\<close>

datatype category = SkippedDone | OverdueTask | CurrentTask | Unlisted

definition should_be_current :: "isoparser \<Rightarrow> clock \<Rightarrow> card \<Rightarrow> bool" where
  "should_be_current fromiso clk c =
     (case (if truthy (start c) then start c else None) of
        Some start_date \<Rightarrow>
          (case parse_date fromiso start_date of
             None \<Rightarrow> True
           | Some (start_dt, _) \<Rightarrow> \<not> (start_dt > now_local clk))
      | None \<Rightarrow>
          (case (if truthy (due c) then due c else None) of
             Some due_date \<Rightarrow>
               (case parse_date fromiso due_date of
                  None \<Rightarrow> True
                | Some (due_dt, _) \<Rightarrow> \<not> (days (due_dt - now_local clk) > 3))
           | None \<Rightarrow> True))"

definition categorize_user_card ::
    "isoparser \<Rightarrow> config \<Rightarrow> clock \<Rightarrow> (string \<rightharpoonup> string) \<Rightarrow> card \<Rightarrow> py_error + category" where
  "categorize_user_card fromiso cfg clk list_names c =
     (if is_card_done cfg list_names c then Inr SkippedDone
      else (case is_card_overdue fromiso clk c of
              Inl e \<Rightarrow> Inl e
            | Inr True \<Rightarrow> Inr OverdueTask
            | Inr False \<Rightarrow>
                if any_marker (in_progress_list_names cfg) (list_name_of list_names c)
                then Inr (if should_be_current fromiso clk c then CurrentTask else Unlisted)
                else Inr Unlisted))"

text \<open>
  The loop over the user's cards of one board, inside the \<open>try\<close> of that board: the
  overdue and current lists grow in place, and an exception ends the loop with what was
  appended so far.
\<close>

fun categorize_cards ::
    "isoparser \<Rightarrow> config \<Rightarrow> clock \<Rightarrow> (string \<rightharpoonup> string) \<Rightarrow> card list
      \<Rightarrow> card list \<times> card list \<Rightarrow> (card list \<times> card list) \<times> py_error option" where
  "categorize_cards fromiso cfg clk list_names [] acc = (acc, None)"
| "categorize_cards fromiso cfg clk list_names (c # cs) (overdue_tasks, current_tasks) =
     (case categorize_user_card fromiso cfg clk list_names c of
        Inl e \<Rightarrow> ((overdue_tasks, current_tasks), Some e)
      | Inr OverdueTask \<Rightarrow>
          categorize_cards fromiso cfg clk list_names cs (overdue_tasks @ [c], current_tasks)
      | Inr CurrentTask \<Rightarrow>
          categorize_cards fromiso cfg clk list_names cs (overdue_tasks, current_tasks @ [c])
      | Inr _ \<Rightarrow> categorize_cards fromiso cfg clk list_names cs (overdue_tasks, current_tasks))"

section \<open>Weekly digest\<close>

text \<open>
  \<open>generate_weekly_stats_report\<close>, the test that appends a card to
  \<open>completed_this_week\<close>; \<open>week_start\<close> is \<open>datetime.now() - timedelta(days=7)\<close>. A date
  that does not parse skips the card.
\<close>

definition completed_in_week ::
    "isoparser \<Rightarrow> config \<Rightarrow> clock \<Rightarrow> (string \<rightharpoonup> string) \<Rightarrow> card \<Rightarrow> bool" where
  "completed_in_week fromiso cfg clk list_names c =
     (is_card_done cfg list_names c \<and>
      (case (if truthy (dateLastActivity c) then dateLastActivity c else None) of
         None \<Rightarrow> False
       | Some a \<Rightarrow>
           (case parse_date fromiso a of
              None \<Rightarrow> False
            | Some (last_activity, _) \<Rightarrow> last_activity \<ge> now_local clk - 7 * day)))"

definition completed_this_week ::
    "isoparser \<Rightarrow> config \<Rightarrow> clock \<Rightarrow> (string \<rightharpoonup> string) \<Rightarrow> card list \<Rightarrow> card list" where
  "completed_this_week fromiso cfg clk list_names all_cards =
     filter (completed_in_week fromiso cfg clk list_names) all_cards"

section \<open>Example data\<close>

definition ex_cfg :: config where
  "ex_cfg = \<lparr>board_ids = [''b1''], done_list_names = [''Done''],
     in_progress_list_names = [''In Progress'', ''Doing''],
     trello_to_telegram_users = [(''alice'', ''@alice_tg'')], REPORT_CHAT_ID = ''-100123''\<rparr>"

definition ex_lists :: "(string \<times> string) list" where
  "ex_lists = [(''L1'', ''Doing''), (''L2'', ''Done ok''), (''L3'', ''DONE (archive)'')]"

definition ex_member :: "string \<Rightarrow> member" where
  "ex_member i = \<lparr>member_id = i, username = Some i\<rparr>"

definition ex_card :: "string \<Rightarrow> string \<Rightarrow> string list \<Rightarrow> card" where
  "ex_card i l ms = \<lparr>card_id = i, card_name = ''Task'', shortUrl = ''https://trello.com/c/x'',
     idList = l, card_members = Some (map ex_member ms),
     due = None, start = None, dateLastActivity = None\<rparr>"

definition ex_board :: "card list \<Rightarrow> board_data" where
  "ex_board cs = \<lparr>board_name = ''Board'', board_cards = cs, board_lists = ex_lists\<rparr>"

definition ex_state :: "bool \<Rightarrow> string \<Rightarrow> string list \<Rightarrow> states" where
  "ex_state fl l ms = [''b1_c1'' \<mapsto> \<lparr>completed = fl, list_id = l, members = ms\<rparr>]"

definition ex_chat :: string where
  "ex_chat = ''-100123''"

definition ex_publish_ok :: "int \<Rightarrow> outcomes" where
  "ex_publish_ok m = \<lparr>unpin_ok = (\<lambda>n. True), send_result = Some m, pin_ok = True,
     pin_time = ''2024-05-10T12:00:00''\<rparr>"

definition ex_publish_unpin_fails :: "int \<Rightarrow> outcomes" where
  "ex_publish_unpin_fails m = \<lparr>unpin_ok = (\<lambda>n. False), send_result = Some m, pin_ok = True,
     pin_time = ''2024-05-11T12:00:00''\<rparr>"

definition ex_record :: "int \<Rightarrow> pinned_message" where
  "ex_record m = \<lparr>chat_id = ex_chat, message_id = m, pinned_at = ''2024-05-09T12:00:00'',
     message_url = ''https://t.me/c/123/7''\<rparr>"

text \<open>
  The clock reads 2024-05-10 12:00 UTC in a zone without offset. The parser is
  \<open>datetime.fromisoformat\<close> restricted to the date strings of the examples; it rejects
  every other string, \<open>not-a-date\<close> among them.
\<close>

definition ex_clock :: clock where
  "ex_clock = \<lparr>now_utc = 19853 * day + 12 * hour, local_offset = 0\<rparr>"

definition ex_fromiso :: isoparser where
  "ex_fromiso = map_of
     [(''2024-05-03T12:00:00.000+00:00'', (19846 * day + 12 * hour, Some 0)),
      (''2024-05-10T13:00:00.000+00:00'', (19853 * day + 13 * hour, Some 0)),
      (''2024-05-11T12:00:00.000+00:00'', (19854 * day + 12 * hour, Some 0)),
      (''2024-05-14T00:00:00.000+00:00'', (19857 * day, Some 0)),
      (''2024-05-20T12:00:00.000+00:00'', (19863 * day + 12 * hour, Some 0))]"

definition ex_dated ::
    "string \<Rightarrow> string option \<Rightarrow> string option \<Rightarrow> string option \<Rightarrow> card" where
  "ex_dated l d s a = \<lparr>card_id = ''c1'', card_name = ''Task'',
     shortUrl = ''https://trello.com/c/x'', idList = l,
     card_members = Some [ex_member ''alice''], due = d, start = s, dateLastActivity = a\<rparr>"

section \<open>Properties of the change detector\<close>

subsection \<open>Evaluation of the examples\<close>

lemmas ex_defs = ex_cfg_def ex_lists_def ex_member_def ex_card_def ex_board_def ex_state_def
  is_card_done_def any_marker_def list_name_of_def list_names_of_def lower_def lower_char_def
  sublist_code(3) card_key_def get_members_def stays_done_def

lemma ex_done_L2: "is_card_done ex_cfg (list_names_of ex_lists) (ex_card i ''L2'' ms)"
  by (simp add: ex_defs)

lemma ex_done_L3: "is_card_done ex_cfg (list_names_of ex_lists) (ex_card i ''L3'' ms)"
  by (simp add: ex_defs)

lemma ex_not_done_L1: "\<not> is_card_done ex_cfg (list_names_of ex_lists) (ex_card i ''L1'' ms)"
  by (simp add: ex_defs)

lemma filter_completion_notify:
  "filter is_completion (notify_member_assignments c bn D) = []"
  by (simp add: notify_member_assignments_def Let_def)

subsection \<open>One card at a time\<close>

lemma card_key_eq: "card_key b c = card_key b c' \<longleftrightarrow> card_id c = card_id c'"
  by (simp add: card_key_def)

lemma process_card_events_card:
  "e \<in> set (fst (process_card cfg b bn ln c lks)) \<Longrightarrow> event_card e = c"
  by (auto simp: process_card_def Let_def notify_member_assignments_def split: option.splits if_splits)

lemma process_card_frame:
  "card_key b c \<noteq> k \<Longrightarrow> snd (process_card cfg b bn ln c lks) k = lks k"
  by (auto simp: process_card_def Let_def split: option.splits if_splits)

lemma process_card_local:
  "lks (card_key b c) = lks' (card_key b c) \<Longrightarrow>
     fst (process_card cfg b bn ln c lks) = fst (process_card cfg b bn ln c lks') \<and>
     snd (process_card cfg b bn ln c lks) (card_key b c) =
       snd (process_card cfg b bn ln c lks') (card_key b c)"
  by (auto simp: process_card_def Let_def split: option.splits if_splits)

lemma events_of_own:
  "events_of (card_id c) (fst (process_card cfg b bn ln c lks)) = fst (process_card cfg b bn ln c lks)"
  unfolding events_of_def by (rule filter_True) (auto dest: process_card_events_card)

lemma events_of_other:
  "card_id c' \<noteq> i \<Longrightarrow> events_of i (fst (process_card cfg b bn ln c' lks)) = []"
  unfolding events_of_def by (auto simp: filter_empty_conv dest: process_card_events_card)

lemma events_of_append: "events_of i (xs @ ys) = events_of i xs @ events_of i ys"
  by (simp add: events_of_def)

lemma process_cards_absent:
  "i \<notin> card_id ` set cs \<Longrightarrow>
     events_of i (fst (process_cards cfg b bn ln cs lks)) = [] \<and>
     snd (process_cards cfg b bn ln cs lks) (b @ ''_'' @ i) = lks (b @ ''_'' @ i)"
proof (induction cs arbitrary: lks)
  case Nil
  then show ?case by (simp add: events_of_def)
next
  case (Cons a cs)
  have ne: "card_id a \<noteq> i" and rest: "i \<notin> card_id ` set cs" using Cons.prems by auto
  have k: "card_key b a \<noteq> b @ ''_'' @ i" using ne by (simp add: card_key_def)
  obtain e1 l1 where p1: "process_card cfg b bn ln a lks = (e1, l1)" by (cases "process_card cfg b bn ln a lks")
  obtain e2 l2 where p2: "process_cards cfg b bn ln cs l1 = (e2, l2)" by (cases "process_cards cfg b bn ln cs l1")
  have a1: "events_of i e1 = []" using events_of_other[OF ne, of cfg b bn ln lks] p1 by simp
  have a2: "l1 (b @ ''_'' @ i) = lks (b @ ''_'' @ i)" using process_card_frame[OF k, of cfg bn ln lks] p1 by simp
  have ih: "events_of i e2 = [] \<and> l2 (b @ ''_'' @ i) = l1 (b @ ''_'' @ i)"
    using Cons.IH[OF rest, of l1] p2 by simp
  show ?case using p1 p2 a1 a2 ih by (simp add: events_of_append)
qed

lemma process_cards_single:
  assumes "distinct (map card_id cs)" and "c \<in> set cs"
  shows "events_of (card_id c) (fst (process_cards cfg b bn ln cs lks)) = fst (process_card cfg b bn ln c lks) \<and>
         snd (process_cards cfg b bn ln cs lks) (card_key b c) = snd (process_card cfg b bn ln c lks) (card_key b c)"
  using assms
proof (induction cs arbitrary: lks)
  case Nil
  then show ?case by simp
next
  case (Cons a cs)
  obtain e1 l1 where p1: "process_card cfg b bn ln a lks = (e1, l1)" by (cases "process_card cfg b bn ln a lks")
  obtain e2 l2 where p2: "process_cards cfg b bn ln cs l1 = (e2, l2)" by (cases "process_cards cfg b bn ln cs l1")
  show ?case
  proof (cases "a = c")
    case True
    have nin: "card_id c \<notin> card_id ` set cs" using Cons.prems True by auto
    have r: "events_of (card_id c) e2 = [] \<and> l2 (b @ ''_'' @ card_id c) = l1 (b @ ''_'' @ card_id c)"
      using process_cards_absent[OF nin, of cfg b bn ln l1] p2 by simp
    have o: "events_of (card_id c) e1 = e1" using events_of_own[of c cfg b bn ln lks] p1 True by simp
    show ?thesis using p1 p2 r o True by (simp add: events_of_append card_key_def)
  next
    case False
    then have cin: "c \<in> set cs" and d: "distinct (map card_id cs)" using Cons.prems by auto
    have ne: "card_id a \<noteq> card_id c" using Cons.prems cin by auto
    have k: "card_key b a \<noteq> card_key b c" using ne by (simp add: card_key_def)
    have a1: "events_of (card_id c) e1 = []" using events_of_other[OF ne, of cfg b bn ln lks] p1 by simp
    have a2: "l1 (card_key b c) = lks (card_key b c)" using process_card_frame[OF k, of cfg bn ln lks] p1 by simp
    have loc: "fst (process_card cfg b bn ln c l1) = fst (process_card cfg b bn ln c lks) \<and>
       snd (process_card cfg b bn ln c l1) (card_key b c) = snd (process_card cfg b bn ln c lks) (card_key b c)"
      using a2 process_card_local[of l1 b c lks cfg bn ln] by simp
    have ih: "events_of (card_id c) e2 = fst (process_card cfg b bn ln c l1) \<and>
         l2 (card_key b c) = snd (process_card cfg b bn ln c l1) (card_key b c)"
      using Cons.IH[OF d cin, of l1] p2 by simp
    show ?thesis using p1 p2 a1 ih loc by (simp add: events_of_append)
  qed
qed

lemma pc_done_new:
  "lks (card_key b c) = None \<Longrightarrow> is_card_done cfg ln c \<Longrightarrow>
   process_card cfg b bn ln c lks =
     ([], lks(card_key b c \<mapsto> \<lparr>completed = True, list_id = idList c,
                                   members = map member_id (get_members c)\<rparr>))"
  by (simp add: process_card_def is_card_done_def Let_def)

lemma pc_done_fresh:
  "lks (card_key b c) = Some s \<Longrightarrow> \<not> completed s \<Longrightarrow> is_card_done cfg ln c \<Longrightarrow>
   process_card cfg b bn ln c lks =
     ([CardCompleted bn c], lks(card_key b c \<mapsto> s\<lparr>completed := True, list_id := idList c\<rparr>))"
  by (simp add: process_card_def is_card_done_def Let_def)

lemma pc_done_again:
  "lks (card_key b c) = Some s \<Longrightarrow> completed s \<Longrightarrow> is_card_done cfg ln c \<Longrightarrow>
   process_card cfg b bn ln c lks = ([], lks)"
  by (simp add: process_card_def is_card_done_def Let_def)

lemma pc_not_done:
  "lks (card_key b c) = Some s \<Longrightarrow> \<not> is_card_done cfg ln c \<Longrightarrow>
   process_card cfg b bn ln c lks =
     (if set (map member_id (get_members c)) - set (members s) \<noteq> {}
      then notify_member_assignments c bn (set (map member_id (get_members c)) - set (members s))
      else [],
      lks(card_key b c \<mapsto> \<lparr>completed = False, list_id = idList c,
                                members = remdups (map member_id (get_members c))\<rparr>))"
  by (simp add: process_card_def is_card_done_def Let_def)

lemma notify_nonempty:
  "D = set (map member_id (get_members c)) - P \<Longrightarrow> D \<noteq> {} \<Longrightarrow>
   \<exists>ms. notify_member_assignments c bn D = [MembersAssigned bn c ms] \<and>
        ms = filter (\<lambda>m. member_id m \<in> D) (get_members c) \<and>
        set (map member_id ms) = D"
  by (auto simp: notify_member_assignments_def Let_def filter_empty_conv)

lemma process_cards_stay_done:
  "lks (b @ ''_'' @ i) = Some s \<Longrightarrow> completed s \<Longrightarrow>
   list_all (\<lambda>c. card_id c \<noteq> i \<or> is_card_done cfg ln c) cs \<Longrightarrow>
     events_of i (fst (process_cards cfg b bn ln cs lks)) = [] \<and>
     snd (process_cards cfg b bn ln cs lks) (b @ ''_'' @ i) = Some s"
proof (induction cs arbitrary: lks)
  case Nil
  then show ?case by (simp add: events_of_def)
next
  case (Cons a cs)
  obtain e1 l1 where p1: "process_card cfg b bn ln a lks = (e1, l1)"
    by (cases "process_card cfg b bn ln a lks")
  obtain e2 l2 where p2: "process_cards cfg b bn ln cs l1 = (e2, l2)"
    by (cases "process_cards cfg b bn ln cs l1")
  have rest: "list_all (\<lambda>c. card_id c \<noteq> i \<or> is_card_done cfg ln c) cs"
    using Cons.prems by simp
  have step: "events_of i e1 = [] \<and> l1 (b @ ''_'' @ i) = Some s"
  proof (cases "card_id a = i")
    case True
    then have d: "is_card_done cfg ln a" using Cons.prems by simp
    have k: "lks (card_key b a) = Some s" using Cons.prems True by (simp add: card_key_def)
    show ?thesis
      using pc_done_again[where lks=lks and b=b and c=a and s=s and cfg=cfg and ln=ln and bn=bn]
        k Cons.prems(2) d p1 Cons.prems(1)
      by (simp add: events_of_def)
  next
    case False
    then have k: "card_key b a \<noteq> b @ ''_'' @ i" by (simp add: card_key_def)
    show ?thesis
      using events_of_other[OF False, of cfg b bn ln lks]
        process_card_frame[OF k, of cfg bn ln lks] p1 Cons.prems(1) by simp
  qed
  have ih: "events_of i e2 = [] \<and> l2 (b @ ''_'' @ i) = Some s"
    using Cons.IH[where lks=l1] step Cons.prems(2) rest p2 by simp
  show ?case using p1 p2 step ih by (simp add: events_of_append)
qed

lemma check_board_stay_done:
  "events_of i (fst (check_board cfg b p lks)) = [] \<and>
     snd (check_board cfg b p lks) (b @ ''_'' @ i) = Some s"
  if "lks (b @ ''_'' @ i) = Some s" and "completed s" and "stays_done cfg i p"
proof (cases p)
  case None
  then show ?thesis using that by (simp add: check_board_def events_of_def)
next
  case (Some bd)
  have "list_all (\<lambda>c. card_id c \<noteq> i \<or> is_card_done cfg (list_names_of (board_lists bd)) c)
          (board_cards bd)"
    using that(3) Some by (simp add: stays_done_def)
  from process_cards_stay_done[where lks=lks and b=b and i=i and s=s and cfg=cfg
      and ln="list_names_of (board_lists bd)" and cs="board_cards bd" and bn="board_name bd"]
    that(1,2) this Some
  show ?thesis by (simp add: check_board_def)
qed

lemma polls_stay_done:
  "lks (b @ ''_'' @ i) = Some s \<Longrightarrow> completed s \<Longrightarrow> list_all (stays_done cfg i) ps \<Longrightarrow>
     list_all (\<lambda>evs. events_of i evs = []) (fst (check_board_polls cfg b ps lks)) \<and>
     snd (check_board_polls cfg b ps lks) (b @ ''_'' @ i) = Some s"
proof (induction ps arbitrary: lks)
  case Nil
  then show ?case by simp
next
  case (Cons p ps)
  obtain e1 l1 where p1: "check_board cfg b p lks = (e1, l1)" by (cases "check_board cfg b p lks")
  obtain e2 l2 where p2: "check_board_polls cfg b ps l1 = (e2, l2)"
    by (cases "check_board_polls cfg b ps l1")
  have sd: "stays_done cfg i p" and rest: "list_all (stays_done cfg i) ps"
    using Cons.prems by simp_all
  have step: "events_of i e1 = [] \<and> l1 (b @ ''_'' @ i) = Some s"
    using check_board_stay_done[where lks=lks and b=b and i=i and s=s and cfg=cfg and p=p]
      Cons.prems(1) Cons.prems(2) sd p1 by simp
  have ih: "list_all (\<lambda>evs. events_of i evs = []) e2 \<and> l2 (b @ ''_'' @ i) = Some s"
    using Cons.IH[where lks=l1] step Cons.prems(2) rest p2 by simp
  show ?case using p1 p2 step ih by simp
qed

lemma check_board_single:
  assumes "distinct (map card_id (board_cards bd))" and "c \<in> set (board_cards bd)"
  shows "events_of (card_id c) (fst (check_board cfg b (Some bd) lks)) =
           fst (process_card cfg b (board_name bd) (list_names_of (board_lists bd)) c lks) \<and>
         snd (check_board cfg b (Some bd) lks) (card_key b c) =
           snd (process_card cfg b (board_name bd) (list_names_of (board_lists bd)) c lks) (card_key b c)"
  using process_cards_single[OF assms] by (simp add: check_board_def)

subsection \<open>The poll over all boards\<close>

text \<open>
  \<open>check_for_completed_cards\<close> runs the pass over one board for each configured board in
  turn. Board ids are distinct and, like every Trello id, contain no underscore, so the
  keys of two boards never meet; a card id belongs to one board. Then, for the card, the
  whole poll emits the events of the pass over its board and leaves its entry as that
  pass leaves it: what the next sections state for \<open>check_board\<close> holds for the poll.
\<close>

lemma key_board:
  assumes "CHR ''_'' \<notin> set b" and "CHR ''_'' \<notin> set b'" and "b @ ''_'' @ i = b' @ ''_'' @ i'"
  shows "b = b'"
proof -
  have t: "takeWhile (\<lambda>x. x \<noteq> CHR ''_'') (a @ ''_'' @ j) = a" if "CHR ''_'' \<notin> set a" for a j
    using that by (induction a) auto
  from t[OF assms(1), of i] t[OF assms(2), of i'] assms(3) show ?thesis by simp
qed

lemma process_cards_frame:
  "\<forall>c \<in> set cs. card_key b c \<noteq> k \<Longrightarrow> snd (process_cards cfg b bn ln cs lks) k = lks k"
proof (induction cs arbitrary: lks)
  case Nil
  then show ?case by simp
next
  case (Cons a cs)
  obtain e1 l1 where p1: "process_card cfg b bn ln a lks = (e1, l1)"
    by (cases "process_card cfg b bn ln a lks")
  have k: "card_key b a \<noteq> k" and rest: "\<forall>c \<in> set cs. card_key b c \<noteq> k"
    using Cons.prems by simp_all
  have "l1 k = lks k" using process_card_frame[OF k, of cfg bn ln lks] p1 by simp
  then show ?case using Cons.IH[OF rest, of l1] p1 by (simp add: split_beta)
qed

lemma process_cards_local:
  "lks (b @ ''_'' @ i) = lks' (b @ ''_'' @ i) \<Longrightarrow>
     events_of i (fst (process_cards cfg b bn ln cs lks)) =
       events_of i (fst (process_cards cfg b bn ln cs lks')) \<and>
     snd (process_cards cfg b bn ln cs lks) (b @ ''_'' @ i) =
       snd (process_cards cfg b bn ln cs lks') (b @ ''_'' @ i)"
proof (induction cs arbitrary: lks lks')
  case Nil
  then show ?case by simp
next
  case (Cons a cs)
  obtain e1 l1 where p1: "process_card cfg b bn ln a lks = (e1, l1)"
    by (cases "process_card cfg b bn ln a lks")
  obtain e1' l1' where p1': "process_card cfg b bn ln a lks' = (e1', l1')"
    by (cases "process_card cfg b bn ln a lks'")
  have step: "events_of i e1 = events_of i e1' \<and> l1 (b @ ''_'' @ i) = l1' (b @ ''_'' @ i)"
  proof (cases "card_id a = i")
    case True
    then have k: "card_key b a = b @ ''_'' @ i" by (simp add: card_key_def)
    have "lks (card_key b a) = lks' (card_key b a)" using Cons.prems k by simp
    from process_card_local[where lks=lks and lks'=lks' and b=b and c=a and cfg=cfg and bn=bn
        and ln=ln] this p1 p1' k
    show ?thesis by simp
  next
    case False
    then have k: "card_key b a \<noteq> b @ ''_'' @ i" by (simp add: card_key_def)
    show ?thesis
      using events_of_other[OF False, of cfg b bn ln lks] events_of_other[OF False, of cfg b bn ln lks']
        process_card_frame[OF k, of cfg bn ln lks] process_card_frame[OF k, of cfg bn ln lks']
        p1 p1' Cons.prems by simp
  qed
  from Cons.IH[where lks=l1 and lks'=l1'] step p1 p1'
  show ?case by (simp add: split_beta events_of_append)
qed

lemma check_board_local:
  "lks (b @ ''_'' @ i) = lks' (b @ ''_'' @ i) \<Longrightarrow>
     events_of i (fst (check_board cfg b p lks)) = events_of i (fst (check_board cfg b p lks')) \<and>
     snd (check_board cfg b p lks) (b @ ''_'' @ i) = snd (check_board cfg b p lks') (b @ ''_'' @ i)"
proof (cases p)
  case None
  then show ?thesis if "lks (b @ ''_'' @ i) = lks' (b @ ''_'' @ i)"
    using that by (simp add: check_board_def)
next
  case (Some bd)
  then show ?thesis if "lks (b @ ''_'' @ i) = lks' (b @ ''_'' @ i)"
    using process_cards_local[where lks=lks and lks'=lks' and b=b and i=i and cfg=cfg
        and bn="board_name bd" and ln="list_names_of (board_lists bd)" and cs="board_cards bd"] that
    by (simp add: check_board_def)
qed

lemma check_board_other:
  assumes "b' \<noteq> b" and "CHR ''_'' \<notin> set b" and "CHR ''_'' \<notin> set b'" and "absent_from i p"
  shows "events_of i (fst (check_board cfg b' p lks)) = [] \<and>
         snd (check_board cfg b' p lks) (b @ ''_'' @ i) = lks (b @ ''_'' @ i)"
proof (cases p)
  case None
  then show ?thesis by (simp add: check_board_def events_of_def)
next
  case (Some bd)
  have a: "i \<notin> card_id ` set (board_cards bd)" using assms(4) Some by (simp add: absent_from_def)
  have k: "\<forall>c \<in> set (board_cards bd). card_key b' c \<noteq> b @ ''_'' @ i"
    using key_board[OF assms(3,2)] assms(1) by (auto simp: card_key_def)
  show ?thesis
    using process_cards_absent[OF a, of cfg b' "board_name bd" "list_names_of (board_lists bd)" lks]
      process_cards_frame[OF k, of cfg "board_name bd" "list_names_of (board_lists bd)" lks] Some
    by (simp add: check_board_def)
qed

lemma check_boards_others:
  assumes "b \<notin> set bs" and "CHR ''_'' \<notin> set b" and "\<forall>b' \<in> set bs. CHR ''_'' \<notin> set b'"
    and "\<forall>b' \<in> set bs. absent_from i (api b')"
  shows "events_of i (fst (check_boards cfg api bs lks)) = [] \<and>
         snd (check_boards cfg api bs lks) (b @ ''_'' @ i) = lks (b @ ''_'' @ i)"
  using assms
proof (induction bs arbitrary: lks)
  case Nil
  then show ?case by (simp add: events_of_def)
next
  case (Cons a bs)
  obtain e1 l1 where p1: "check_board cfg a (api a) lks = (e1, l1)"
    by (cases "check_board cfg a (api a) lks")
  have ne: "a \<noteq> b" using Cons.prems(1) by auto
  have s: "events_of i e1 = [] \<and> l1 (b @ ''_'' @ i) = lks (b @ ''_'' @ i)"
    using check_board_other[where b'=a and b=b and i=i and p="api a" and cfg=cfg and lks=lks]
      ne Cons.prems(2,3,4) p1 by simp
  have ih: "events_of i (fst (check_boards cfg api bs l1)) = [] \<and>
         snd (check_boards cfg api bs l1) (b @ ''_'' @ i) = l1 (b @ ''_'' @ i)"
    using Cons.IH[where lks=l1] Cons.prems by simp
  show ?case using p1 s ih by (simp add: split_beta events_of_append)
qed

lemma check_boards_on_board:
  assumes "distinct bs" and "b \<in> set bs" and "\<forall>b' \<in> set bs. CHR ''_'' \<notin> set b'"
    and "\<forall>b' \<in> set bs. b' \<noteq> b \<longrightarrow> absent_from i (api b')"
  shows "events_of i (fst (check_boards cfg api bs lks)) =
           events_of i (fst (check_board cfg b (api b) lks)) \<and>
         snd (check_boards cfg api bs lks) (b @ ''_'' @ i) =
           snd (check_board cfg b (api b) lks) (b @ ''_'' @ i)"
  using assms
proof (induction bs arbitrary: lks)
  case Nil
  then show ?case by simp
next
  case (Cons a bs)
  obtain e1 l1 where p1: "check_board cfg a (api a) lks = (e1, l1)"
    by (cases "check_board cfg a (api a) lks")
  have ub: "CHR ''_'' \<notin> set b" using Cons.prems(2,3) by auto
  show ?case
  proof (cases "a = b")
    case True
    have nb: "b \<notin> set bs" using Cons.prems(1) True by simp
    have o: "\<forall>b' \<in> set bs. absent_from i (api b')" using Cons.prems(4) nb by auto
    have "events_of i (fst (check_boards cfg api bs l1)) = [] \<and>
         snd (check_boards cfg api bs l1) (b @ ''_'' @ i) = l1 (b @ ''_'' @ i)"
      using check_boards_others[where b=b and bs=bs and i=i and api=api and cfg=cfg and lks=l1]
        nb ub o Cons.prems(3) by simp
    then show ?thesis using p1 True by (simp add: split_beta events_of_append)
  next
    case False
    have bin: "b \<in> set bs" and d: "distinct bs" using Cons.prems(1,2) False by auto
    have s: "events_of i e1 = [] \<and> l1 (b @ ''_'' @ i) = lks (b @ ''_'' @ i)"
      using check_board_other[where b'=a and b=b and i=i and p="api a" and cfg=cfg and lks=lks]
        False ub Cons.prems(3,4) p1 by simp
    have ih: "events_of i (fst (check_boards cfg api bs l1)) =
           events_of i (fst (check_board cfg b (api b) l1)) \<and>
         snd (check_boards cfg api bs l1) (b @ ''_'' @ i) =
           snd (check_board cfg b (api b) l1) (b @ ''_'' @ i)"
      using Cons.IH[where lks=l1] d bin Cons.prems(3,4) by simp
    have loc: "events_of i (fst (check_board cfg b (api b) l1)) =
           events_of i (fst (check_board cfg b (api b) lks)) \<and>
         snd (check_board cfg b (api b) l1) (b @ ''_'' @ i) =
           snd (check_board cfg b (api b) lks) (b @ ''_'' @ i)"
      using check_board_local[where lks=l1 and lks'=lks and b=b and i=i and cfg=cfg and p="api b"] s
      by simp
    show ?thesis using p1 s ih loc by (simp add: split_beta events_of_append)
  qed
qed

lemma check_for_completed_cards_on_board:
  assumes "distinct (board_ids cfg)" and "b \<in> set (board_ids cfg)"
    and "\<forall>b' \<in> set (board_ids cfg). CHR ''_'' \<notin> set b'"
    and "\<forall>b' \<in> set (board_ids cfg). b' \<noteq> b \<longrightarrow> absent_from i (api b')"
  shows "events_of i (fst (check_for_completed_cards cfg api lks)) =
           events_of i (fst (check_board cfg b (api b) lks)) \<and>
         snd (check_for_completed_cards cfg api lks) (b @ ''_'' @ i) =
           snd (check_board cfg b (api b) lks) (b @ ''_'' @ i)"
  unfolding check_for_completed_cards_def using check_boards_on_board[OF assms] .

subsection \<open>Completion is edge-triggered\<close>

text \<open>
  Claim C1. A board snapshot lists each card once. When a card has a stored state that is
  not completed and the snapshot shows it in a done list, the poll of that board emits
  exactly one \<open>CardCompleted\<close> event for it; in every later poll of the board in which
  the card, when returned, is still in a done list, no event is emitted for it.
\<close>

theorem completion_fires_exactly_once:
  assumes "distinct (map card_id (board_cards bd))"
    and "c \<in> set (board_cards bd)"
    and "lks (card_key b c) = Some s"
    and "\<not> completed s"
    and "is_card_done cfg (list_names_of (board_lists bd)) c"
    and "list_all (stays_done cfg (card_id c)) later"
  shows "events_of (card_id c) (fst (check_board cfg b (Some bd) lks)) =
           [CardCompleted (board_name bd) c] \<and>
         list_all (\<lambda>evs. events_of (card_id c) evs = [])
           (fst (check_board_polls cfg b later (snd (check_board cfg b (Some bd) lks))))"
proof -
  let ?l1 = "snd (check_board cfg b (Some bd) lks)"
  let ?s1 = "s\<lparr>completed := True, list_id := idList c\<rparr>"
  have one: "events_of (card_id c) (fst (check_board cfg b (Some bd) lks)) =
           [CardCompleted (board_name bd) c]"
    and st: "?l1 (card_key b c) = Some ?s1"
    using check_board_single[OF assms(1,2), of cfg b lks]
      pc_done_fresh[where lks=lks and b=b and c=c and s=s and cfg=cfg
        and ln="list_names_of (board_lists bd)" and bn="board_name bd"] assms(3,4,5)
    by simp_all
  have st': "?l1 (b @ ''_'' @ card_id c) = Some ?s1" using st by (simp add: card_key_def)
  have "completed ?s1" by simp
  from polls_stay_done[where lks="?l1" and b=b and i="card_id c" and s="?s1" and cfg=cfg
      and ps=later] st' this assms(6) one
  show ?thesis by simp
qed

theorem completion_fires_exactly_once_witness:
  "events_of ''c1''
     (fst (check_board ex_cfg ''b1''
        (Some (ex_board [ex_card ''c2'' ''L1'' [], ex_card ''c1'' ''L2'' []]))
        (ex_state False ''L1'' []))) =
     [CardCompleted ''Board'' (ex_card ''c1'' ''L2'' [])] \<and>
   list_all (\<lambda>evs. events_of ''c1'' evs = [])
     (fst (check_board_polls ex_cfg ''b1''
        [Some (ex_board [ex_card ''c1'' ''L2'' []]), None, Some (ex_board [ex_card ''c1'' ''L3'' []])]
        (snd (check_board ex_cfg ''b1''
           (Some (ex_board [ex_card ''c2'' ''L1'' [], ex_card ''c1'' ''L2'' []]))
           (ex_state False ''L1'' [])))))"
proof -
  let ?bd = "ex_board [ex_card ''c2'' ''L1'' [], ex_card ''c1'' ''L2'' []]"
  let ?c = "ex_card ''c1'' ''L2'' []"
  let ?s = "\<lparr>completed = False, list_id = ''L1'', members = []\<rparr>"
  let ?later = "[Some (ex_board [ex_card ''c1'' ''L2'' []]), None, Some (ex_board [ex_card ''c1'' ''L3'' []])]"
  have h1: "distinct (map card_id (board_cards ?bd))" by (simp add: ex_defs)
  have h2: "?c \<in> set (board_cards ?bd)" by (simp add: ex_defs)
  have h3: "ex_state False ''L1'' [] (card_key ''b1'' ?c) = Some ?s" by (simp add: ex_defs)
  have h4: "\<not> completed ?s" by simp
  have h5: "is_card_done ex_cfg (list_names_of (board_lists ?bd)) ?c"
    using ex_done_L2 by (simp add: ex_board_def)
  have h6: "list_all (stays_done ex_cfg (card_id ?c)) ?later"
    by (simp add: stays_done_def ex_board_def ex_done_L2 ex_done_L3)
  have i: "card_id ?c = ''c1''" "board_name ?bd = ''Board''" by (simp_all add: ex_defs)
  show ?thesis
    using completion_fires_exactly_once[where bd="?bd" and c="?c" and lks="ex_state False ''L1'' []"
        and b="''b1''" and s="?s" and cfg=ex_cfg and later="?later", OF h1 h2 h3 h4 h5 h6]
    unfolding i .
qed

text \<open>
  Claim C2. A card with no entry under its key that is seen in a done list emits no event
  at all in that poll, and its state is seeded as completed, with the list id and the
  member ids of the card.
\<close>

theorem first_seen_done_is_silent:
  assumes "distinct (map card_id (board_cards bd))"
    and "c \<in> set (board_cards bd)"
    and "lks (card_key b c) = None"
    and "is_card_done cfg (list_names_of (board_lists bd)) c"
  shows "events_of (card_id c) (fst (check_board cfg b (Some bd) lks)) = [] \<and>
         snd (check_board cfg b (Some bd) lks) (card_key b c) =
           Some \<lparr>completed = True, list_id = idList c,
                 members = map member_id (get_members c)\<rparr>"
  using check_board_single[OF assms(1,2), of cfg b lks]
    pc_done_new[where lks=lks and b=b and c=c and cfg=cfg
      and ln="list_names_of (board_lists bd)" and bn="board_name bd"] assms(3,4)
  by simp

theorem first_seen_done_is_silent_witness:
  "events_of ''c1''
     (fst (check_board ex_cfg ''b1'' (Some (ex_board [ex_card ''c1'' ''L2'' [''m1'']])) Map.empty)) = [] \<and>
   snd (check_board ex_cfg ''b1'' (Some (ex_board [ex_card ''c1'' ''L2'' [''m1'']])) Map.empty) ''b1_c1'' =
     Some \<lparr>completed = True, list_id = ''L2'', members = [''m1'']\<rparr>"
proof -
  let ?bd = "ex_board [ex_card ''c1'' ''L2'' [''m1'']]"
  let ?c = "ex_card ''c1'' ''L2'' [''m1'']"
  have h1: "distinct (map card_id (board_cards ?bd))" by (simp add: ex_defs)
  have h2: "?c \<in> set (board_cards ?bd)" by (simp add: ex_defs)
  have h3: "(Map.empty :: states) (card_key ''b1'' ?c) = None" by simp
  have h4: "is_card_done ex_cfg (list_names_of (board_lists ?bd)) ?c"
    using ex_done_L2 by (simp add: ex_board_def)
  show ?thesis
    using first_seen_done_is_silent[where bd="?bd" and c="?c" and lks="Map.empty"
        and b="''b1''" and cfg=ex_cfg, OF h1 h2 h3 h4]
    by (simp add: ex_card_def ex_member_def card_key_def get_members_def)
qed

subsection \<open>Assignments\<close>

text \<open>
  Claim C4. For a card with a stored, not completed state that is seen outside the done
  lists, a \<open>MembersAssigned\<close> event is emitted if and only if the current member ids
  minus the stored ones are not empty; the event lists members whose ids are exactly that
  difference; and when the current ids are among the stored ones nothing is emitted.
\<close>

theorem members_assigned_iff_new_members:
  assumes "distinct (map card_id (board_cards bd))"
    and "c \<in> set (board_cards bd)"
    and "lks (card_key b c) = Some s"
    and "\<not> completed s"
    and "\<not> is_card_done cfg (list_names_of (board_lists bd)) c"
    and "D = set (map member_id (get_members c)) - set (members s)"
    and "evs = events_of (card_id c) (fst (check_board cfg b (Some bd) lks))"
  shows "(evs \<noteq> [] \<longleftrightarrow> D \<noteq> {}) \<and>
         (D \<noteq> {} \<longrightarrow>
            (\<exists>ms. evs = [MembersAssigned (board_name bd) c ms] \<and> set (map member_id ms) = D)) \<and>
         (set (map member_id (get_members c)) \<subseteq> set (members s) \<longrightarrow> evs = [])"
proof -
  have e: "evs = (if D \<noteq> {} then notify_member_assignments c (board_name bd) D else [])"
    using check_board_single[OF assms(1,2), of cfg b lks]
      pc_not_done[where lks=lks and b=b and c=c and s=s and cfg=cfg
        and ln="list_names_of (board_lists bd)" and bn="board_name bd"] assms(3,5,6,7)
    by simp
  show ?thesis
  proof (cases "D = {}")
    case True
    then show ?thesis using e assms(6) by auto
  next
    case False
    from notify_nonempty[OF assms(6) False, of "board_name bd"] e False assms(6)
    show ?thesis by auto
  qed
qed

theorem members_assigned_iff_new_members_witness:
  "\<exists>ms. events_of ''c1''
     (fst (check_board ex_cfg ''b1'' (Some (ex_board [ex_card ''c1'' ''L1'' [''m1'', ''m2'']]))
        (ex_state False ''L1'' [''m1'', ''m3'']))) =
        [MembersAssigned ''Board'' (ex_card ''c1'' ''L1'' [''m1'', ''m2'']) ms] \<and>
      set (map member_id ms) = {''m2''}"
proof -
  let ?bd = "ex_board [ex_card ''c1'' ''L1'' [''m1'', ''m2'']]"
  let ?c = "ex_card ''c1'' ''L1'' [''m1'', ''m2'']"
  let ?s = "\<lparr>completed = False, list_id = ''L1'', members = [''m1'', ''m3'']\<rparr>"
  let ?lks = "ex_state False ''L1'' [''m1'', ''m3'']"
  let ?evs = "events_of (card_id ?c) (fst (check_board ex_cfg ''b1'' (Some ?bd) ?lks))"
  have h1: "distinct (map card_id (board_cards ?bd))" by (simp add: ex_defs)
  have h2: "?c \<in> set (board_cards ?bd)" by (simp add: ex_defs)
  have h3: "?lks (card_key ''b1'' ?c) = Some ?s" by (simp add: ex_defs)
  have h4: "\<not> completed ?s" by simp
  have h5: "\<not> is_card_done ex_cfg (list_names_of (board_lists ?bd)) ?c"
    using ex_not_done_L1 by (simp add: ex_board_def)
  have h6: "{''m2''} = set (map member_id (get_members ?c)) - set (members ?s)"
    by (auto simp: ex_card_def ex_member_def get_members_def)
  have i: "card_id ?c = ''c1''" "board_name ?bd = ''Board''" by (simp_all add: ex_defs)
  from members_assigned_iff_new_members[where bd="?bd" and c="?c" and lks="?lks"
        and b="''b1''" and s="?s" and cfg=ex_cfg and D="{''m2''}" and evs="?evs",
        OF h1 h2 h3 h4 h5 h6 refl]
  show ?thesis unfolding i by blast
qed

subsection \<open>A completed card that stays done\<close>

text \<open>
  Claim C8 says the stored list id is refreshed when a completed card is seen in a done
  list again. The detector has no branch for this case: a completed card that moved from
  list \<open>L2\<close> to the done list \<open>L3\<close> keeps \<open>L2\<close> as its stored list id.
\<close>

theorem list_id_refresh_counterexample:
  "ex_state True ''L2'' [] ''b1_c1'' = Some \<lparr>completed = True, list_id = ''L2'', members = []\<rparr> \<and>
   is_card_done ex_cfg (list_names_of ex_lists) (ex_card ''c1'' ''L3'' []) \<and>
   map_option list_id
     (snd (check_board ex_cfg ''b1'' (Some (ex_board [ex_card ''c1'' ''L3'' []]))
        (ex_state True ''L2'' [])) ''b1_c1'') \<noteq> Some (idList (ex_card ''c1'' ''L3'' []))"
  by (simp add: ex_defs check_board_def process_card_def Let_def)

text \<open>
  Claim C8, as the detector behaves: a card whose stored state is completed and which is
  seen in a done list emits no event, and its stored state is left exactly as it was,
  list id included.
\<close>

theorem still_done_leaves_state_untouched:
  assumes "distinct (map card_id (board_cards bd))"
    and "c \<in> set (board_cards bd)"
    and "lks (card_key b c) = Some s"
    and "completed s"
    and "is_card_done cfg (list_names_of (board_lists bd)) c"
  shows "events_of (card_id c) (fst (check_board cfg b (Some bd) lks)) = [] \<and>
         snd (check_board cfg b (Some bd) lks) (card_key b c) = Some s"
  using check_board_single[OF assms(1,2), of cfg b lks]
    pc_done_again[where lks=lks and b=b and c=c and s=s and cfg=cfg
      and ln="list_names_of (board_lists bd)" and bn="board_name bd"] assms(3,4,5)
  by simp

theorem still_done_leaves_state_untouched_witness:
  "events_of ''c1''
     (fst (check_board ex_cfg ''b1'' (Some (ex_board [ex_card ''c1'' ''L3'' [''m9'']]))
        (ex_state True ''L2'' []))) = [] \<and>
   snd (check_board ex_cfg ''b1'' (Some (ex_board [ex_card ''c1'' ''L3'' [''m9'']]))
        (ex_state True ''L2'' [])) ''b1_c1'' =
     Some \<lparr>completed = True, list_id = ''L2'', members = []\<rparr>"
proof -
  let ?bd = "ex_board [ex_card ''c1'' ''L3'' [''m9'']]"
  let ?c = "ex_card ''c1'' ''L3'' [''m9'']"
  let ?s = "\<lparr>completed = True, list_id = ''L2'', members = []\<rparr>"
  let ?lks = "ex_state True ''L2'' []"
  have h1: "distinct (map card_id (board_cards ?bd))" by (simp add: ex_defs)
  have h2: "?c \<in> set (board_cards ?bd)" by (simp add: ex_defs)
  have h3: "?lks (card_key ''b1'' ?c) = Some ?s" by (simp add: ex_defs)
  have h4: "completed ?s" by simp
  have h5: "is_card_done ex_cfg (list_names_of (board_lists ?bd)) ?c"
    using ex_done_L3 by (simp add: ex_board_def)
  show ?thesis
    using still_done_leaves_state_untouched[where bd="?bd" and c="?c" and lks="?lks"
        and b="''b1''" and s="?s" and cfg=ex_cfg, OF h1 h2 h3 h4 h5]
    by (simp add: ex_card_def card_key_def)
qed

subsection \<open>A completed card that leaves the done lists\<close>

text \<open>
  Claim C9 says no event is emitted when a completed card is seen outside the done lists.
  The member comparison does not look at the completion flag: a completed card that comes
  back with a member the stored state does not list emits \<open>MembersAssigned\<close>.
\<close>

theorem reopened_card_silent_counterexample:
  "ex_state True ''L2'' [] ''b1_c1'' = Some \<lparr>completed = True, list_id = ''L2'', members = []\<rparr> \<and>
   \<not> is_card_done ex_cfg (list_names_of ex_lists) (ex_card ''c1'' ''L1'' [''m1'']) \<and>
   fst (check_board ex_cfg ''b1'' (Some (ex_board [ex_card ''c1'' ''L1'' [''m1'']]))
        (ex_state True ''L2'' [])) =
     [MembersAssigned ''Board'' (ex_card ''c1'' ''L1'' [''m1'']) [ex_member ''m1'']]"
  by (simp add: ex_defs check_board_def process_card_def notify_member_assignments_def Let_def)

text \<open>
  Claim C9, as the detector behaves: a card whose stored state is completed and which is
  seen outside the done lists emits no \<open>CardCompleted\<close> event (a \<open>MembersAssigned\<close>
  event is emitted exactly when the card has member ids the stored state lacks); its
  state is overwritten as not completed with the current list id and member ids; and when
  a later snapshot shows the card in a done list, one \<open>CardCompleted\<close> event is emitted.
\<close>

theorem reopened_card_is_rearmed:
  assumes "distinct (map card_id (board_cards bd))"
    and "c \<in> set (board_cards bd)"
    and "lks (card_key b c) = Some s"
    and "completed s"
    and "\<not> is_card_done cfg (list_names_of (board_lists bd)) c"
    and "distinct (map card_id (board_cards bd'))"
    and "c' \<in> set (board_cards bd')"
    and "card_id c' = card_id c"
    and "is_card_done cfg (list_names_of (board_lists bd')) c'"
    and "D = set (map member_id (get_members c)) - set (members s)"
    and "evs = events_of (card_id c) (fst (check_board cfg b (Some bd) lks))"
    and "lks' = snd (check_board cfg b (Some bd) lks)"
  shows "filter is_completion evs = [] \<and>
         (evs \<noteq> [] \<longleftrightarrow> D \<noteq> {}) \<and>
         (\<exists>ms. lks' (card_key b c) =
                  Some \<lparr>completed = False, list_id = idList c, members = ms\<rparr> \<and>
               set ms = set (map member_id (get_members c))) \<and>
         events_of (card_id c) (fst (check_board cfg b (Some bd') lks')) =
           [CardCompleted (board_name bd') c']"
proof -
  let ?s1 = "\<lparr>completed = False, list_id = idList c,
               members = remdups (map member_id (get_members c))\<rparr>"
  have e: "evs = (if D \<noteq> {} then notify_member_assignments c (board_name bd) D else [])"
    and st: "lks' (card_key b c) = Some ?s1"
    using check_board_single[OF assms(1,2), of cfg b lks]
      pc_not_done[where lks=lks and b=b and c=c and s=s and cfg=cfg
        and ln="list_names_of (board_lists bd)" and bn="board_name bd"] assms(3,5,10,11,12)
    by simp_all
  have a: "filter is_completion evs = []" using e by (simp add: filter_completion_notify)
  have b': "evs \<noteq> [] \<longleftrightarrow> D \<noteq> {}"
  proof (cases "D = {}")
    case True
    then show ?thesis using e by simp
  next
    case False
    from notify_nonempty[OF assms(10) False, of "board_name bd"] e False show ?thesis by auto
  qed
  have k: "card_key b c' = card_key b c" using assms(8) by (simp add: card_key_def)
  have st2: "lks' (card_key b c') = Some ?s1" using st k by simp
  have n: "\<not> completed ?s1" by simp
  have d: "events_of (card_id c) (fst (check_board cfg b (Some bd') lks')) =
           [CardCompleted (board_name bd') c']"
    using check_board_single[OF assms(6,7), of cfg b lks']
      pc_done_fresh[where lks=lks' and b=b and c=c' and s="?s1" and cfg=cfg
        and ln="list_names_of (board_lists bd')" and bn="board_name bd'"] st2 n assms(8,9)
    by simp
  have cc: "\<exists>ms. lks' (card_key b c) =
                  Some \<lparr>completed = False, list_id = idList c, members = ms\<rparr> \<and>
               set ms = set (map member_id (get_members c))"
    using st by simp
  show ?thesis using a b' cc d by blast
qed

theorem reopened_card_is_rearmed_witness:
  "filter is_completion
     (events_of ''c1'' (fst (check_board ex_cfg ''b1'' (Some (ex_board [ex_card ''c1'' ''L1'' [''m1'']]))
        (ex_state True ''L2'' [])))) = [] \<and>
   events_of ''c1''
     (fst (check_board ex_cfg ''b1'' (Some (ex_board [ex_card ''c1'' ''L3'' [''m1'']]))
        (snd (check_board ex_cfg ''b1'' (Some (ex_board [ex_card ''c1'' ''L1'' [''m1'']]))
           (ex_state True ''L2'' []))))) =
     [CardCompleted ''Board'' (ex_card ''c1'' ''L3'' [''m1''])]"
proof -
  let ?bd = "ex_board [ex_card ''c1'' ''L1'' [''m1'']]"
  let ?c = "ex_card ''c1'' ''L1'' [''m1'']"
  let ?bd2 = "ex_board [ex_card ''c1'' ''L3'' [''m1'']]"
  let ?c2 = "ex_card ''c1'' ''L3'' [''m1'']"
  let ?s = "\<lparr>completed = True, list_id = ''L2'', members = []\<rparr>"
  let ?lks = "ex_state True ''L2'' []"
  have h1: "distinct (map card_id (board_cards ?bd))" by (simp add: ex_defs)
  have h2: "?c \<in> set (board_cards ?bd)" by (simp add: ex_defs)
  have h3: "?lks (card_key ''b1'' ?c) = Some ?s" by (simp add: ex_defs)
  have h4: "completed ?s" by simp
  have h5: "\<not> is_card_done ex_cfg (list_names_of (board_lists ?bd)) ?c"
    using ex_not_done_L1 by (simp add: ex_board_def)
  have h6: "distinct (map card_id (board_cards ?bd2))" by (simp add: ex_defs)
  have h7: "?c2 \<in> set (board_cards ?bd2)" by (simp add: ex_defs)
  have h8: "card_id ?c2 = card_id ?c" by (simp add: ex_defs)
  have h9: "is_card_done ex_cfg (list_names_of (board_lists ?bd2)) ?c2"
    using ex_done_L3 by (simp add: ex_board_def)
  have i: "card_id ?c = ''c1''" "board_name ?bd2 = ''Board''" by (simp_all add: ex_defs)
  from reopened_card_is_rearmed[where bd="?bd" and c="?c" and lks="?lks" and b="''b1''" and s="?s"
      and cfg=ex_cfg and bd'="?bd2" and c'="?c2", OF h1 h2 h3 h4 h5 h6 h7 h8 h9 refl refl refl]
  show ?thesis unfolding i by blast
qed

section \<open>Properties of the pinned-message store\<close>

lemma load_Messages: "load_pinned_messages (Messages ms) = (ms, Messages ms)"
  by (simp add: load_pinned_messages_def)

lemma load_idem:
  "load_pinned_messages (snd (load_pinned_messages f)) =
     (fst (load_pinned_messages f), snd (load_pinned_messages f))"
  by (cases f) (simp_all add: load_pinned_messages_def Let_def)

lemma add_existing:
  "filter (\<lambda>msg. chat_id msg = c \<and> message_id msg = m) (fst (load_pinned_messages f)) \<noteq> [] \<Longrightarrow>
   add_pinned_message t f c m u = snd (load_pinned_messages f)"
  by (simp add: add_pinned_message_def split_beta Let_def)

lemma add_fresh:
  "filter (\<lambda>msg. chat_id msg = c \<and> message_id msg = m) (fst (load_pinned_messages f)) = [] \<Longrightarrow>
   add_pinned_message t f c m u =
     Messages (fst (load_pinned_messages f) @
       [\<lparr>chat_id = c, message_id = m, pinned_at = t, message_url = u\<rparr>])"
  by (simp add: add_pinned_message_def split_beta Let_def)

lemma add_twice:
  "add_pinned_message t' (add_pinned_message t f c m u) c m u' = add_pinned_message t f c m u"
proof (cases "filter (\<lambda>msg. chat_id msg = c \<and> message_id msg = m) (fst (load_pinned_messages f)) = []")
  case True
  let ?g = "Messages (fst (load_pinned_messages f) @
       [\<lparr>chat_id = c, message_id = m, pinned_at = t, message_url = u\<rparr>])"
  have a: "add_pinned_message t f c m u = ?g" using add_fresh[OF True] .
  have "filter (\<lambda>msg. chat_id msg = c \<and> message_id msg = m) (fst (load_pinned_messages ?g)) \<noteq> []"
    by (simp add: load_Messages)
  from add_existing[OF this] have "add_pinned_message t' ?g c m u' = ?g" by (simp add: load_Messages)
  then show ?thesis using a by simp
next
  case False
  let ?g = "snd (load_pinned_messages f)"
  have a: "add_pinned_message t f c m u = ?g" using add_existing[OF False] .
  have "filter (\<lambda>msg. chat_id msg = c \<and> message_id msg = m) (fst (load_pinned_messages ?g)) \<noteq> []"
    using False by (simp add: load_idem)
  from add_existing[OF this] have "add_pinned_message t' ?g c m u' = ?g" by (simp add: load_idem)
  then show ?thesis using a by simp
qed

text \<open>
  Claim C10. A second call of \<open>add_pinned_message\<close> with the chat id and message id of the
  first call leaves the file as the first call left it, whatever the timestamps and
  URLs; and on a file in the current format that already holds a record with that chat id
  and message id, the call leaves the file unchanged.
\<close>

theorem add_pinned_message_idempotent:
  "add_pinned_message t' (add_pinned_message t f c m u) c m u' = add_pinned_message t f c m u \<and>
   ((\<exists>msg \<in> set ms. chat_id msg = c \<and> message_id msg = m) \<longrightarrow>
      add_pinned_message t (Messages ms) c m u = Messages ms)"
proof -
  have "add_pinned_message t (Messages ms) c m u = Messages ms"
    if "\<exists>msg \<in> set ms. chat_id msg = c \<and> message_id msg = m"
  proof -
    have "filter (\<lambda>msg. chat_id msg = c \<and> message_id msg = m)
            (fst (load_pinned_messages (Messages ms))) \<noteq> []"
      using that by (auto simp: load_Messages filter_empty_conv)
    from add_existing[OF this] show ?thesis by (simp add: load_Messages)
  qed
  then show ?thesis using add_twice by blast
qed

theorem add_pinned_message_idempotent_witness:
  "add_pinned_message ''2024-05-11T12:00:00''
     (add_pinned_message ''2024-05-10T12:00:00'' (Messages [ex_record 7]) ex_chat 8 ''u8'')
     ex_chat 8 ''u8b'' =
   Messages [ex_record 7,
     \<lparr>chat_id = ex_chat, message_id = 8, pinned_at = ''2024-05-10T12:00:00'', message_url = ''u8''\<rparr>] \<and>
   add_pinned_message ''2024-05-10T12:00:00'' (Messages [ex_record 7]) ex_chat 7 ''u'' =
     Messages [ex_record 7]"
proof -
  have h: "\<exists>msg \<in> set [ex_record 7]. chat_id msg = ex_chat \<and> message_id msg = 7"
    by (simp add: ex_record_def)
  have a: "add_pinned_message ''2024-05-10T12:00:00'' (Messages [ex_record 7]) ex_chat 8 ''u8'' =
    Messages [ex_record 7,
     \<lparr>chat_id = ex_chat, message_id = 8, pinned_at = ''2024-05-10T12:00:00'', message_url = ''u8''\<rparr>]"
    by (simp add: add_pinned_message_def load_Messages ex_record_def)
  from add_pinned_message_idempotent[where t'="''2024-05-11T12:00:00''" and t="''2024-05-10T12:00:00''"
      and f="Messages [ex_record 7]" and c=ex_chat and m=8 and u="''u8''" and u'="''u8b''"]
    add_pinned_message_idempotent[where t="''2024-05-10T12:00:00''" and ms="[ex_record 7]"
      and c=ex_chat and m=7 and u="''u''"] h a
  show ?thesis by simp
qed

section \<open>Properties of the pin rotation\<close>

lemma unpin_old_all_ok:
  "\<forall>n. ok n \<Longrightarrow>
   fst (load_pinned_messages (unpin_old ok c n ms f)) =
     filter (\<lambda>r. \<not> (chat_id r = c \<and> message_id r \<in> message_id ` set ms))
       (fst (load_pinned_messages f))"
proof (induction ms arbitrary: n f)
  case Nil
  then show ?case by simp
next
  case (Cons a ms)
  have r: "fst (load_pinned_messages (remove_pinned_message f c (message_id a))) =
      filter (\<lambda>msg. \<not> (chat_id msg = c \<and> message_id msg = message_id a))
        (fst (load_pinned_messages f))"
    by (simp add: remove_pinned_message_def split_beta load_Messages)
  have "fst (load_pinned_messages (unpin_old ok c n (a # ms) f)) =
      fst (load_pinned_messages (unpin_old ok c (Suc n) ms (remove_pinned_message f c (message_id a))))"
    using Cons.prems by simp
  also have "\<dots> = filter (\<lambda>r. \<not> (chat_id r = c \<and> message_id r \<in> message_id ` set ms))
       (fst (load_pinned_messages (remove_pinned_message f c (message_id a))))"
    using Cons.IH[OF Cons.prems] .
  also have "\<dots> = filter (\<lambda>r. \<not> (chat_id r = c \<and> message_id r \<in> message_id ` set (a # ms)))
       (fst (load_pinned_messages f))"
    unfolding r by (auto intro: filter_cong)
  finally show ?case .
qed

lemma records_for_add:
  "length (records_for (add_pinned_message t f c m u) c) \<le> Suc (length (records_for f c))"
proof (cases "filter (\<lambda>msg. chat_id msg = c \<and> message_id msg = m) (fst (load_pinned_messages f)) = []")
  case True
  show ?thesis unfolding add_fresh[OF True]
    by (simp add: records_for_def get_stored_pinned_messages_def split_beta load_Messages)
next
  case False
  show ?thesis unfolding add_existing[OF False]
    by (simp add: records_for_def get_stored_pinned_messages_def split_beta load_idem)
qed

lemma publish_clears:
  assumes "\<forall>n. unpin_ok out n"
  shows "length (records_for (snd (send_report_with_pin out c f)) c) \<le> 1"
proof -
  let ?f1 = "snd (load_pinned_messages f)"
  let ?stored = "filter (\<lambda>msg. chat_id msg = c) (fst (load_pinned_messages f))"
  let ?f3 = "unpin_old (unpin_ok out) c 0 ?stored ?f1"
  have d3: "fst (load_pinned_messages ?f3) =
      filter (\<lambda>r. \<not> (chat_id r = c \<and> message_id r \<in> message_id ` set ?stored))
       (fst (load_pinned_messages f))"
    using unpin_old_all_ok[OF assms, of c 0 ?stored ?f1] by (simp add: load_idem)
  have r3: "records_for ?f3 c = []"
    unfolding records_for_def get_stored_pinned_messages_def
    by (simp add: split_beta d3 filter_empty_conv)
  have s: "snd (send_report_with_pin out c f) = ?f3 \<or>
           (\<exists>t m u. snd (send_report_with_pin out c f) = add_pinned_message t ?f3 c m u)"
    by (auto simp: send_report_with_pin_def get_stored_pinned_messages_def split_beta Let_def
          load_idem split: option.splits)
  then show ?thesis
  proof
    assume "snd (send_report_with_pin out c f) = ?f3"
    then show ?thesis using r3 by simp
  next
    assume "\<exists>t m u. snd (send_report_with_pin out c f) = add_pinned_message t ?f3 c m u"
    then obtain t m u where e: "snd (send_report_with_pin out c f) = add_pinned_message t ?f3 c m u"
      by blast
    show ?thesis unfolding e using records_for_add[of t ?f3 c m u] r3 by simp
  qed
qed

text \<open>
  Claim C3 says that at most one record of the chat exists after any sequence of
  publications, whatever steps fail. A record is removed only when its unpin call
  succeeded: after a first publication that pins message 10 and a second one whose unpin
  call fails and that pins message 11, the store holds both records.
\<close>

theorem failed_unpin_keeps_second_record_counterexample:
  "length (records_for
     (publish_all [ex_publish_ok 10, ex_publish_unpin_fails 11] ex_chat NoFile) ex_chat) = 2"
  by (simp add: records_for_def get_stored_pinned_messages_def send_report_with_pin_def
      add_pinned_message_def load_pinned_messages_def ex_publish_ok_def
      ex_publish_unpin_fails_def ex_chat_def Let_def)

text \<open>
  Claim C3, as the code behaves: starting from a store with at most one record of the
  chat, after any sequence of publications for that chat in which every unpin call
  succeeds (each send and each pin may succeed or fail), the store holds at most one
  record of the chat.
\<close>

theorem at_most_one_pin_record_when_unpins_succeed:
  assumes "length (records_for f c) \<le> 1"
    and "\<forall>out \<in> set outs. \<forall>n. unpin_ok out n"
  shows "length (records_for (publish_all outs c f) c) \<le> 1"
  using assms
proof (induction outs arbitrary: f)
  case Nil
  then show ?case by simp
next
  case (Cons out outs)
  have "\<forall>n. unpin_ok out n" using Cons.prems(2) by simp
  from publish_clears[OF this]
  have "length (records_for (snd (send_report_with_pin out c f)) c) \<le> 1" .
  from Cons.IH[OF this] Cons.prems(2) show ?case by simp
qed

theorem at_most_one_pin_record_when_unpins_succeed_witness:
  "length (records_for
     (publish_all [ex_publish_ok 10, ex_publish_ok 11, (ex_publish_ok 12)\<lparr>pin_ok := False\<rparr>]
        ex_chat (Messages [ex_record 7])) ex_chat) \<le> 1"
proof -
  have h1: "length (records_for (Messages [ex_record 7]) ex_chat) \<le> 1"
    by (simp add: records_for_def get_stored_pinned_messages_def load_Messages)
  have h2: "\<forall>out \<in> set [ex_publish_ok 10, ex_publish_ok 11, (ex_publish_ok 12)\<lparr>pin_ok := False\<rparr>].
              \<forall>n. unpin_ok out n"
    by (simp add: ex_publish_ok_def)
  show ?thesis using at_most_one_pin_record_when_unpins_succeed[OF h1 h2] .
qed

section \<open>Properties of the classification\<close>

subsection \<open>Evaluation of the examples\<close>

lemma ex_dated_done: "is_card_done ex_cfg (list_names_of ex_lists) (ex_dated l d s a) =
    is_card_done ex_cfg (list_names_of ex_lists) (ex_card ''c1'' l [])"
  by (simp add: is_card_done_def list_name_of_def ex_dated_def ex_card_def)

lemma ex_in_progress_L1:
  "any_marker (in_progress_list_names ex_cfg) (list_name_of (list_names_of ex_lists) (ex_dated ''L1'' d s a))"
  by (simp add: ex_cfg_def ex_lists_def ex_dated_def any_marker_def list_name_of_def
      list_names_of_def lower_def lower_char_def sublist_code(3))

lemma ex_parse_1: "parse_date ex_fromiso ''2024-05-11T12:00:00.000Z'' = Some (19854 * day + 12 * hour, Some 0)"
  by (simp add: parse_date_def replace_Z_def ex_fromiso_def)

lemma ex_parse_35: "parse_date ex_fromiso ''2024-05-14T00:00:00.000Z'' = Some (19857 * day, Some 0)"
  by (simp add: parse_date_def replace_Z_def ex_fromiso_def)

lemma ex_parse_10: "parse_date ex_fromiso ''2024-05-20T12:00:00.000Z'' = Some (19863 * day + 12 * hour, Some 0)"
  by (simp add: parse_date_def replace_Z_def ex_fromiso_def)

lemma ex_parse_week: "parse_date ex_fromiso ''2024-05-03T12:00:00.000Z'' = Some (19846 * day + 12 * hour, Some 0)"
  by (simp add: parse_date_def replace_Z_def ex_fromiso_def)

lemma ex_parse_ahead: "parse_date ex_fromiso ''2024-05-10T13:00:00.000Z'' = Some (19853 * day + 13 * hour, Some 0)"
  by (simp add: parse_date_def replace_Z_def ex_fromiso_def)

lemma ex_parse_bad: "parse_date ex_fromiso ''not-a-date'' = None"
  by (simp add: parse_date_def replace_Z_def ex_fromiso_def)

lemma day_pos: "0 < day"
  by (simp add: day_def hour_def)

lemma days_gt_3: "days delta > 3 \<longleftrightarrow> delta \<ge> 4 * day"
proof
  assume "days delta > 3"
  then have q: "4 \<le> delta div day" by (simp add: days_def)
  have "4 * day \<le> (delta div day) * day"
    using q day_pos by (intro mult_right_mono) simp_all
  moreover have "0 \<le> delta mod day" using day_pos by simp
  moreover have "delta = (delta div day) * day + delta mod day" by simp
  ultimately show "delta \<ge> 4 * day" by linarith
next
  assume "delta \<ge> 4 * day"
  from zdiv_mono1[OF this day_pos] have "4 \<le> delta div day" using day_pos by simp
  then show "days delta > 3" by (simp add: days_def)
qed


lemma days_le_3: "delta \<le> 3 * day \<Longrightarrow> \<not> days delta > 3"
  using days_gt_3[of delta] day_pos by simp

subsection \<open>Cards with a due date and no start date\<close>

text \<open>
  Claim C5 says that a card in an in-progress list that is neither done nor overdue, has
  no start date and has a due date is current unless the due date is more than three days
  ahead. \<open>get_current_cards\<close> never lists such a card: with the due date one day ahead
  the result is empty. \<open>get_user_tasks\<close> compares the whole days of the difference with
  3: with the due date three and a half days ahead the card is still listed as current.
\<close>

theorem due_only_card_counterexample:
  "\<not> is_card_done ex_cfg (list_names_of ex_lists)
       (ex_dated ''L1'' (Some ''2024-05-11T12:00:00.000Z'') None None) \<and>
   is_card_overdue ex_fromiso ex_clock
       (ex_dated ''L1'' (Some ''2024-05-11T12:00:00.000Z'') None None) = Inr False \<and>
   get_current_cards ex_fromiso ex_cfg ex_clock (list_names_of ex_lists)
       [ex_dated ''L1'' (Some ''2024-05-11T12:00:00.000Z'') None None] = Inr [] \<and>
   is_card_overdue ex_fromiso ex_clock
       (ex_dated ''L1'' (Some ''2024-05-14T00:00:00.000Z'') None None) = Inr False \<and>
   19857 * day - now_local ex_clock > 3 * day \<and>
   categorize_user_card ex_fromiso ex_cfg ex_clock (list_names_of ex_lists)
       (ex_dated ''L1'' (Some ''2024-05-14T00:00:00.000Z'') None None) = Inr CurrentTask"
proof -
  have nd: "\<not> is_card_done ex_cfg (list_names_of ex_lists) (ex_dated ''L1'' d s a)" for d s a
    using ex_not_done_L1[of "''c1''" "[]"] by (simp add: ex_dated_done)
  have o1: "is_card_overdue ex_fromiso ex_clock
       (ex_dated ''L1'' (Some ''2024-05-11T12:00:00.000Z'') None None) = Inr False"
    by (simp add: is_card_overdue_def ex_dated_def ex_parse_1 ex_clock_def day_def hour_def)
  have o2: "is_card_overdue ex_fromiso ex_clock
       (ex_dated ''L1'' (Some ''2024-05-14T00:00:00.000Z'') None None) = Inr False"
    by (simp add: is_card_overdue_def ex_dated_def ex_parse_35 ex_clock_def day_def hour_def)
  have g: "get_current_cards ex_fromiso ex_cfg ex_clock (list_names_of ex_lists)
       [ex_dated ''L1'' (Some ''2024-05-11T12:00:00.000Z'') None None] = Inr []"
    by (simp add: card_is_current_def o1 truthy_def) (simp add: ex_dated_def)
  have w: "19857 * day - now_local ex_clock > 3 * day"
    by (simp add: now_local_def ex_clock_def day_def hour_def)
  have s: "should_be_current ex_fromiso ex_clock
       (ex_dated ''L1'' (Some ''2024-05-14T00:00:00.000Z'') None None)"
    by (simp add: should_be_current_def ex_dated_def truthy_def ex_parse_35)
       (simp add: days_def now_local_def ex_clock_def day_def hour_def)
  have c: "categorize_user_card ex_fromiso ex_cfg ex_clock (list_names_of ex_lists)
       (ex_dated ''L1'' (Some ''2024-05-14T00:00:00.000Z'') None None) = Inr CurrentTask"
    by (simp add: categorize_user_card_def nd o2 ex_in_progress_L1 s)
  show ?thesis using nd o1 o2 g w c by simp
qed

text \<open>
  Claim C5, as the code behaves: for such a card whose due date parses,
  \<open>get_user_tasks\<close> compares the wall-clock reading of the due date, its UTC offset
  dropped, with the naive local clock. It leaves the card out when that reading is four
  days or more after the local reading of now, and lists it as current when that reading
  is three days or less after the local reading of now. \<open>get_current_cards\<close> does not
  list the card as current. On a host whose zone is not UTC the two readings differ from
  the instants by the zone's offset.
\<close>

theorem due_only_card_window:
  assumes "\<not> is_card_done cfg list_names c"
    and "is_card_overdue fromiso clk c = Inr False"
    and "any_marker (in_progress_list_names cfg) (list_name_of list_names c)"
    and "\<not> truthy (start c)"
    and "due c = Some d"
    and "d \<noteq> []"
    and "parse_date fromiso d = Some (due_dt, off)"
  shows "(due_dt - now_local clk \<ge> 4 * day \<longrightarrow>
            categorize_user_card fromiso cfg clk list_names c = Inr Unlisted) \<and>
         (due_dt - now_local clk \<le> 3 * day \<longrightarrow>
            categorize_user_card fromiso cfg clk list_names c = Inr CurrentTask) \<and>
         card_is_current fromiso cfg clk list_names c = Inr False"
proof -
  have t: "truthy (due c)" using assms(5,6) by (simp add: truthy_def)
  have s: "should_be_current fromiso clk c \<longleftrightarrow> \<not> days (due_dt - now_local clk) > 3"
    using assms(4,5,7) t by (simp add: should_be_current_def)
  have c: "categorize_user_card fromiso cfg clk list_names c =
      Inr (if should_be_current fromiso clk c then CurrentTask else Unlisted)"
    using assms(1,2,3) by (simp add: categorize_user_card_def)
  have a: "due_dt - now_local clk \<ge> 4 * day \<longrightarrow>
            categorize_user_card fromiso cfg clk list_names c = Inr Unlisted"
    using c s days_gt_3[of "due_dt - now_local clk"] by simp
  have b: "due_dt - now_local clk \<le> 3 * day \<longrightarrow>
            categorize_user_card fromiso cfg clk list_names c = Inr CurrentTask"
    using c s days_le_3[of "due_dt - now_local clk"] by auto
  have g: "card_is_current fromiso cfg clk list_names c = Inr False"
    using assms(2,4) t by (simp add: card_is_current_def)
  show ?thesis using a b g by blast
qed

theorem due_only_card_window_witness:
  "categorize_user_card ex_fromiso ex_cfg ex_clock (list_names_of ex_lists)
     (ex_dated ''L1'' (Some ''2024-05-11T12:00:00.000Z'') None None) = Inr CurrentTask \<and>
   card_is_current ex_fromiso ex_cfg ex_clock (list_names_of ex_lists)
     (ex_dated ''L1'' (Some ''2024-05-11T12:00:00.000Z'') None None) = Inr False \<and>
   categorize_user_card ex_fromiso ex_cfg ex_clock (list_names_of ex_lists)
     (ex_dated ''L1'' (Some ''2024-05-20T12:00:00.000Z'') None None) = Inr Unlisted"
proof -
  let ?c1 = "ex_dated ''L1'' (Some ''2024-05-11T12:00:00.000Z'') None None"
  let ?c10 = "ex_dated ''L1'' (Some ''2024-05-20T12:00:00.000Z'') None None"
  have nd: "\<not> is_card_done ex_cfg (list_names_of ex_lists) (ex_dated ''L1'' d s a)" for d s a
    using ex_not_done_L1[of "''c1''" "[]"] by (simp add: ex_dated_done)
  have o1: "is_card_overdue ex_fromiso ex_clock ?c1 = Inr False"
    by (simp add: is_card_overdue_def ex_dated_def ex_parse_1 ex_clock_def day_def hour_def)
  have o10: "is_card_overdue ex_fromiso ex_clock ?c10 = Inr False"
    by (simp add: is_card_overdue_def ex_dated_def ex_parse_10 ex_clock_def day_def hour_def)
  have ns: "\<not> truthy (start (ex_dated l d None a))" for l d a
    by (simp add: ex_dated_def truthy_def)
  have d1: "due ?c1 = Some ''2024-05-11T12:00:00.000Z''" and d10: "due ?c10 = Some ''2024-05-20T12:00:00.000Z''"
    by (simp_all add: ex_dated_def)
  have w1: "19854 * day + 12 * hour - now_local ex_clock \<le> 3 * day"
    by (simp add: now_local_def ex_clock_def day_def hour_def)
  have w10: "19863 * day + 12 * hour - now_local ex_clock \<ge> 4 * day"
    by (simp add: now_local_def ex_clock_def day_def hour_def)
  from due_only_card_window[OF nd o1 ex_in_progress_L1 ns d1 _ ex_parse_1]
    due_only_card_window[OF nd o10 ex_in_progress_L1 ns d10 _ ex_parse_10] w1 w10
  show ?thesis by simp
qed

subsection \<open>Malformed dates\<close>

text \<open>
  Claim C6 says that a malformed date string never aborts classification and that the
  overdue check returns a value on it. \<open>is_card_overdue\<close> parses the due string without a
  guard: on the due string \<open>not-a-date\<close> it raises \<open>ValueError\<close>, which ends
  \<open>get_current_cards\<close> with that error and ends the loop of \<open>get_user_tasks\<close> over the
  board before the next card. The guarded parse of the start date in \<open>get_user_tasks\<close>
  keeps a card with that start string as current.
\<close>

theorem malformed_due_raises:
  "is_card_overdue ex_fromiso ex_clock (ex_dated ''L1'' (Some ''not-a-date'') None None) =
     Inl ValueError \<and>
   get_current_cards ex_fromiso ex_cfg ex_clock (list_names_of ex_lists)
     [ex_dated ''L1'' None None None, ex_dated ''L1'' (Some ''not-a-date'') None None] =
     Inl ValueError \<and>
   categorize_cards ex_fromiso ex_cfg ex_clock (list_names_of ex_lists)
     [ex_dated ''L1'' (Some ''not-a-date'') None None, ex_dated ''L1'' None None None] ([], []) =
     (([], []), Some ValueError) \<and>
   categorize_user_card ex_fromiso ex_cfg ex_clock (list_names_of ex_lists)
     (ex_dated ''L1'' None (Some ''not-a-date'') None) = Inr CurrentTask"
proof -
  let ?bad = "ex_dated ''L1'' (Some ''not-a-date'') None None"
  let ?good = "ex_dated ''L1'' None None None"
  let ?bad_start = "ex_dated ''L1'' None (Some ''not-a-date'') None"
  have nd: "\<not> is_card_done ex_cfg (list_names_of ex_lists) (ex_dated ''L1'' d s a)" for d s a
    using ex_not_done_L1[of "''c1''" "[]"] by (simp add: ex_dated_done)
  have o: "is_card_overdue ex_fromiso ex_clock ?bad = Inl ValueError"
    by (simp add: is_card_overdue_def ex_dated_def ex_parse_bad)
  have og: "is_card_overdue ex_fromiso ex_clock (ex_dated ''L1'' None s a) = Inr False" for s a
    by (simp add: is_card_overdue_def ex_dated_def)
  have cg: "card_is_current ex_fromiso ex_cfg ex_clock (list_names_of ex_lists) ?good = Inr True"
    using ex_in_progress_L1[of None None None]
    by (simp add: card_is_current_def og) (simp add: ex_dated_def truthy_def)
  have cb: "card_is_current ex_fromiso ex_cfg ex_clock (list_names_of ex_lists) ?bad = Inl ValueError"
    by (simp add: card_is_current_def o)
  have g: "get_current_cards ex_fromiso ex_cfg ex_clock (list_names_of ex_lists) [?good, ?bad] =
     Inl ValueError"
    by (simp add: cg cb)
  have ub: "categorize_user_card ex_fromiso ex_cfg ex_clock (list_names_of ex_lists) ?bad =
     Inl ValueError"
    by (simp add: categorize_user_card_def nd o)
  have k: "categorize_cards ex_fromiso ex_cfg ex_clock (list_names_of ex_lists)
     [?bad, ?good] ([], []) = (([], []), Some ValueError)"
    by (simp add: ub)
  have sb: "should_be_current ex_fromiso ex_clock ?bad_start"
    by (simp add: should_be_current_def ex_dated_def truthy_def ex_parse_bad)
  have us: "categorize_user_card ex_fromiso ex_cfg ex_clock (list_names_of ex_lists) ?bad_start =
     Inr CurrentTask"
    by (simp add: categorize_user_card_def nd og ex_in_progress_L1 sb)
  show ?thesis using o g k us by simp
qed

section \<open>Properties of the weekly digest\<close>

text \<open>
  Claim C7 bounds the window of the weekly digest by the moment of the report. The code
  only compares with the start of the week: a card in a done list whose last activity
  reads one hour after now is counted.
\<close>

theorem weekly_window_upper_bound_counterexample:
  "is_card_done ex_cfg (list_names_of ex_lists)
     (ex_dated ''L2'' None None (Some ''2024-05-10T13:00:00.000Z'')) \<and>
   parse_date ex_fromiso ''2024-05-10T13:00:00.000Z'' = Some (19853 * day + 13 * hour, Some 0) \<and>
   now_local ex_clock < 19853 * day + 13 * hour \<and>
   completed_this_week ex_fromiso ex_cfg ex_clock (list_names_of ex_lists)
     [ex_dated ''L2'' None None (Some ''2024-05-10T13:00:00.000Z'')] =
     [ex_dated ''L2'' None None (Some ''2024-05-10T13:00:00.000Z'')]"
proof -
  let ?c = "ex_dated ''L2'' None None (Some ''2024-05-10T13:00:00.000Z'')"
  have d: "is_card_done ex_cfg (list_names_of ex_lists) ?c"
    using ex_done_L2[of "''c1''" "[]"] by (simp add: ex_dated_done)
  have n: "now_local ex_clock < 19853 * day + 13 * hour"
    by (simp add: now_local_def ex_clock_def day_def hour_def)
  have w: "completed_in_week ex_fromiso ex_cfg ex_clock (list_names_of ex_lists) ?c"
    using d by (simp add: completed_in_week_def ex_dated_def truthy_def ex_parse_ahead
        now_local_def ex_clock_def day_def hour_def)
  show ?thesis using d n w ex_parse_ahead by (simp add: completed_this_week_def)
qed

text \<open>
  Claim C7, as the code behaves: a card of the scanned set counts as completed this week
  if and only if it is in a done list and its last activity is present, parses and is not
  before now minus seven days; a card whose last activity is exactly seven days before
  now is counted.
\<close>

theorem weekly_completed_iff:
  "(c \<in> set (completed_this_week fromiso cfg clk list_names all_cards) \<longleftrightarrow>
      c \<in> set all_cards \<and> is_card_done cfg list_names c \<and>
      (\<exists>a last_activity off. dateLastActivity c = Some a \<and> a \<noteq> [] \<and>
         parse_date fromiso a = Some (last_activity, off) \<and>
         now_local clk - 7 * day \<le> last_activity)) \<and>
   (c \<in> set all_cards \<and> is_card_done cfg list_names c \<and> dateLastActivity c = Some a' \<and>
      a' \<noteq> [] \<and> parse_date fromiso a' = Some (now_local clk - 7 * day, off') \<longrightarrow>
      c \<in> set (completed_this_week fromiso cfg clk list_names all_cards))"
proof -
  have w: "completed_in_week fromiso cfg clk list_names c \<longleftrightarrow>
      is_card_done cfg list_names c \<and>
      (\<exists>a last_activity off. dateLastActivity c = Some a \<and> a \<noteq> [] \<and>
         parse_date fromiso a = Some (last_activity, off) \<and>
         now_local clk - 7 * day \<le> last_activity)"
    by (cases "dateLastActivity c")
       (auto simp: completed_in_week_def truthy_def split: option.splits)
  show ?thesis unfolding completed_this_week_def using w by auto
qed

theorem weekly_completed_iff_witness:
  "ex_dated ''L2'' None None (Some ''2024-05-03T12:00:00.000Z'') \<in>
     set (completed_this_week ex_fromiso ex_cfg ex_clock (list_names_of ex_lists)
       [ex_dated ''L1'' None None (Some ''2024-05-03T12:00:00.000Z''),
        ex_dated ''L2'' None None (Some ''2024-05-03T12:00:00.000Z'')])"
proof -
  let ?c = "ex_dated ''L2'' None None (Some ''2024-05-03T12:00:00.000Z'')"
  let ?all = "[ex_dated ''L1'' None None (Some ''2024-05-03T12:00:00.000Z''), ?c]"
  have d: "is_card_done ex_cfg (list_names_of ex_lists) ?c"
    using ex_done_L2[of "''c1''" "[]"] by (simp add: ex_dated_done)
  have i: "?c \<in> set ?all" by simp
  have a: "dateLastActivity ?c = Some ''2024-05-03T12:00:00.000Z''" by (simp add: ex_dated_def)
  have p: "parse_date ex_fromiso ''2024-05-03T12:00:00.000Z'' =
      Some (now_local ex_clock - 7 * day, Some 0)"
    by (simp add: ex_parse_week now_local_def ex_clock_def day_def hour_def)
  from weekly_completed_iff[where c="?c" and all_cards="?all" and cfg=ex_cfg
      and list_names="list_names_of ex_lists" and fromiso=ex_fromiso and clk=ex_clock
      and a'="''2024-05-03T12:00:00.000Z''" and off'="Some 0"] d i a p
  show ?thesis by simp
qed

end
